theory Spec2Isabelle
  imports Main "HOL-Library.Word" "HOL-Library.Code_Target_Numeral"
begin

unbundle bit_operations_syntax

section \<open>The SPI RAM bridge of rtl/spi_ram_dual.py\<close>

text \<open>
  The module translates Wishbone bus cycles into SPI transactions on two RAM chips that
  share clock and chip select. It is a migen description: a pure Python function that
  formats the command words, a constructor that checks the pads and picks the commands,
  and a finite state machine whose registers change on every clock edge.
\<close>

subsection \<open>Opcodes\<close>

definition FAST_READ :: int where "FAST_READ = 0x0b"
definition DIOFR :: int where "DIOFR = 0xbb"
definition QIOFR :: int where "QIOFR = 0xeb"
definition WRITE :: int where "WRITE = 0x02"
definition QIOW :: int where "QIOW = 0x38"

subsection \<open>The command formatter\<close>

text \<open>
  \<^verbatim>\<open>
  def _format_cmd(cmd, spi_width):
      c = 2**(8*spi_width)-1
      for b in range(8):
          if not (cmd>>b)%2:
              c &= ~(1<<(b*spi_width))
      return c
  \<close>
  Python integers are unbounded, so the model works on \<open>int\<close>; \<open>>>\<close> is \<open>drop_bit\<close>,
  \<open><<\<close> is \<open>push_bit\<close>, \<open>&\<close> and \<open>~\<close> are \<open>AND\<close> and \<open>NOT\<close>. The loop over
  \<open>range(8)\<close> is a recursion over the list of the bit positions still to visit.
\<close>

fun format_cmd_loop :: "int \<Rightarrow> nat \<Rightarrow> nat list \<Rightarrow> int \<Rightarrow> int" where
  "format_cmd_loop cmd spi_width [] c = c"
| "format_cmd_loop cmd spi_width (b # bs) c =
     format_cmd_loop cmd spi_width bs
       (if \<not> (drop_bit b cmd mod 2 \<noteq> 0) then c AND NOT (push_bit (b * spi_width) 1) else c)"

definition format_cmd :: "int \<Rightarrow> nat \<Rightarrow> int" where
  "format_cmd cmd spi_width = format_cmd_loop cmd spi_width [0..<8] (2 ^ (8 * spi_width) - 1)"

subsection \<open>Construction\<close>

text \<open>
  What \<open>SpiRamDualQuad.__init__\<close> fixes before it describes the state machine. The two
  assertions and the two dictionary look-ups are its only ways to fail, in this order:
  \<^verbatim>\<open>
  spi_width = len(pads_1.dq)
  assert spi_width >= 2
  assert len(pads_1.dq) == len(pads_2.dq)
  wbone_width = len(bus.dat_r)
  read_cmd_params = {4: (_format_cmd(_QIOFR, 4), 4*8),
                     2: (_format_cmd(_DIOFR, 2), 2*8),
                     1: (_format_cmd(_FAST_READ, 1), 1*8)}
  read_cmd, cmd_width = read_cmd_params[spi_width]
  write_cmd_params = {4: _format_cmd(_QIOW, 4), 1: _format_cmd(_WRITE, 1)}
  write_cmd = write_cmd_params[spi_width]
  addr_width = 24
  \<close>
  The bus is a \<open>wishbone.Interface()\<close> of LiteX, which is not part of the repository:
  the width of its data signals is a parameter of the model (\<open>dat_r_len\<close>; LiteX's
  interface is 32 bits wide). The \<open>endianness\<close> argument only selects how the shift
  register is presented on \<open>bus.dat_r\<close> and is left out.
\<close>

datatype error = AssertionError | KeyError

record config =
  spi_width :: nat
  cmd_width :: nat
  read_cmd :: int
  write_cmd :: int
  addr_width :: nat
  wbone_width :: nat
  dummy :: nat

definition read_cmd_params :: "nat \<rightharpoonup> int \<times> nat" where
  "read_cmd_params =
     [4 \<mapsto> (format_cmd QIOFR 4, 4 * 8),
      2 \<mapsto> (format_cmd DIOFR 2, 2 * 8),
      1 \<mapsto> (format_cmd FAST_READ 1, 1 * 8)]"

definition write_cmd_params :: "nat \<rightharpoonup> int" where
  "write_cmd_params = [4 \<mapsto> format_cmd QIOW 4, 1 \<mapsto> format_cmd WRITE 1]"

definition construct :: "nat \<Rightarrow> nat \<Rightarrow> nat \<Rightarrow> nat \<Rightarrow> error + config" where
  "construct len_dq_1 len_dq_2 dummy_arg dat_r_len =
     (let sw = len_dq_1 in
      if \<not> sw \<ge> 2 then Inl AssertionError
      else if \<not> len_dq_1 = len_dq_2 then Inl AssertionError
      else case read_cmd_params sw of
        None \<Rightarrow> Inl KeyError
      | Some (rc, cw) \<Rightarrow>
          (case write_cmd_params sw of
             None \<Rightarrow> Inl KeyError
           | Some wc \<Rightarrow>
               Inr \<lparr>spi_width = sw, cmd_width = cw, read_cmd = rc, write_cmd = wc,
                    addr_width = 24, wbone_width = dat_r_len, dummy = dummy_arg\<rparr>))"

subsection \<open>Registers, bus inputs and combinatorial signals\<close>

text \<open>
  The registers are the state of the \<open>FSM()\<close>, the shift register
  \<open>sr = Signal(max(cmd_width, addr_width, wbone_width))\<close>, the 5-bit
  \<open>cycle_counter = Signal(5, reset_less=True)\<close>, \<open>is_write = Signal()\<close> and the 32-bit
  \<open>next_addr = Signal(32)\<close>. The shift register is a natural number below
  \<open>2 ^ sr_width\<close>; every value assigned to it is truncated to that width.
\<close>

datatype fsm_state =
  IDLE | SEND_CMD | SEND_ADDR | SEND_DATA | RECV_DATA_DUMMY | RECV_DATA
  | WAIT_SEND_MORE | WAIT_RECV_MORE

record regs =
  state :: fsm_state
  sr :: nat
  cycle_counter :: "5 word"
  is_write :: bool
  next_addr :: "32 word"

text \<open>
  What the machine samples in one clock cycle: the Wishbone request lines and the data
  lines of the two chips (\<open>dq1.i\<close>, \<open>dq2.i\<close>). The width of \<open>bus.adr\<close> belongs to the
  LiteX interface, so the address is an unbounded natural number here.
\<close>

record inputs =
  cyc :: bool
  stb :: bool
  we :: bool
  adr :: nat
  dat_w :: nat
  dq1_i :: nat
  dq2_i :: nat

text \<open>
  The combinatorial signals an \<open>fsm.act\<close> block drives. \<open>NextState\<close> and \<open>NextValue\<close>
  are combinatorial too: they choose what the registers take at the clock edge, and a
  later statement of a block overrides an earlier one. \<open>clk\<close> says that the system clock
  is forwarded to the chips (\<open>clk.eq(ClockSignal())\<close>).
\<close>

record signals =
  cs_n :: bool
  clk :: bool
  dq_oe :: bool
  gang_outputs :: bool
  cycle_counter_reset :: bool
  cycle_counter_ce :: bool
  ack :: bool
  next_state :: fsm_state
  sr_next_value :: "nat option"
  is_write_next_value :: "bool option"
  next_addr_next_value :: "nat option"

definition sr_width :: "config \<Rightarrow> nat" where
  "sr_width c = max (cmd_width c) (max (addr_width c) (wbone_width c))"

text \<open>
  Bits \<open>lo\<close> up to \<open>hi\<close> (exclusive) of a value: \<open>sr[-spi_width:]\<close> is
  \<open>bit_slice sr (W - spi_width) W\<close> for a register of \<open>W\<close> bits.
\<close>

definition bit_slice :: "nat \<Rightarrow> nat \<Rightarrow> nat \<Rightarrow> nat" where
  "bit_slice v lo hi = (v div 2 ^ lo) mod 2 ^ (hi - lo)"

text \<open>
  \<open>Cat(Signal(k), v)\<close>: \<open>k\<close> zero bits below \<open>v\<close>. The width \<open>k\<close> is a Python integer
  computed from the configuration; migen only builds signals of positive width.
\<close>

definition cat_zeros :: "int \<Rightarrow> nat \<Rightarrow> nat" where
  "cat_zeros k v = v * 2 ^ nat k"

text \<open>\<open>Cat(dq1.i, dq2.i, sr[:-spi_width*2])\<close>: chip 1 in the lowest bits, then chip 2.\<close>

definition cat_dq :: "config \<Rightarrow> nat \<Rightarrow> nat \<Rightarrow> nat \<Rightarrow> nat" where
  "cat_dq c d1 d2 v =
     d1 mod 2 ^ spi_width c
     + 2 ^ spi_width c * (d2 mod 2 ^ spi_width c)
     + 2 ^ (2 * spi_width c) * bit_slice v 0 (sr_width c - spi_width c * 2)"

text \<open>Signals nobody drives keep their reset value: \<open>cs_n = Signal(reset=1)\<close>, 0 otherwise.\<close>

definition comb_reset :: "regs \<Rightarrow> signals" where
  "comb_reset s =
     \<lparr>cs_n = True, clk = False, dq_oe = False, gang_outputs = False,
      cycle_counter_reset = False, cycle_counter_ce = False, ack = False,
      next_state = state s, sr_next_value = None, is_write_next_value = None,
      next_addr_next_value = None\<rparr>"

subsection \<open>The state machine\<close>

text \<open>
  One definition per \<open>fsm.act\<close> block, statement by statement; \<open>fsm_act\<close> selects the
  block of the current state.
\<close>

definition act_IDLE :: "config \<Rightarrow> regs \<Rightarrow> inputs \<Rightarrow> signals" where
  "act_IDLE c s i =
     (let d = (comb_reset s)\<lparr>cycle_counter_reset := True\<rparr> in
      if cyc i \<and> stb i then
        d\<lparr>next_state := SEND_CMD,
          sr_next_value := Some (if we i then nat (write_cmd c) else nat (read_cmd c))\<rparr>
      else d)"

definition act_SEND_CMD :: "config \<Rightarrow> regs \<Rightarrow> inputs \<Rightarrow> signals" where
  "act_SEND_CMD c s i =
     (let d = (comb_reset s)\<lparr>cycle_counter_ce := True, dq_oe := True, cs_n := False,
                clk := True, gang_outputs := True,
                is_write_next_value := Some (we i),
                sr_next_value := Some (cat_zeros
                  (int (cmd_width c) - int (wbone_width c) + int (spi_width c)) (sr s))\<rparr> in
      if int (unat (cycle_counter s)) = int (cmd_width c div spi_width c) - 1 then
        d\<lparr>cycle_counter_reset := True,
          sr_next_value := Some (adr i * 2),
          next_addr_next_value := Some (adr i + 1),
          next_state := SEND_ADDR\<rparr>
      else d)"

definition act_SEND_ADDR :: "config \<Rightarrow> regs \<Rightarrow> inputs \<Rightarrow> signals" where
  "act_SEND_ADDR c s i =
     (let d = (comb_reset s)\<lparr>cycle_counter_ce := True, dq_oe := True, cs_n := False,
                clk := True, gang_outputs := True,
                sr_next_value := Some (cat_zeros
                  (int (cmd_width c) - int (wbone_width c) + int (spi_width c)) (sr s))\<rparr> in
      if int (unat (cycle_counter s)) = int (addr_width c div spi_width c) - 1 then
        (let d = d\<lparr>cycle_counter_reset := True\<rparr> in
         if is_write s then
           d\<lparr>next_state := SEND_DATA,
             sr_next_value := Some (dat_w i mod 2 ^ wbone_width c)\<rparr>
         else d\<lparr>next_state := RECV_DATA_DUMMY\<rparr>)
      else d)"

definition act_SEND_DATA :: "config \<Rightarrow> regs \<Rightarrow> inputs \<Rightarrow> signals" where
  "act_SEND_DATA c s i =
     (let d = (comb_reset s)\<lparr>cycle_counter_ce := True, dq_oe := True, cs_n := False,
                clk := True,
                sr_next_value := Some (cat_zeros
                  (int (cmd_width c) - int (wbone_width c) + int (spi_width c * 2)) (sr s))\<rparr> in
      if int (unat (cycle_counter s)) = int (wbone_width c div spi_width c div 2) - 1 then
        d\<lparr>cycle_counter_reset := True, next_state := WAIT_SEND_MORE, ack := True\<rparr>
      else d)"

definition act_RECV_DATA_DUMMY :: "config \<Rightarrow> regs \<Rightarrow> inputs \<Rightarrow> signals" where
  "act_RECV_DATA_DUMMY c s i =
     (let d = (comb_reset s)\<lparr>cycle_counter_ce := True, dq_oe := False, cs_n := False,
                clk := True\<rparr> in
      if unat (cycle_counter s) = dummy c then
        d\<lparr>cycle_counter_reset := True, next_state := RECV_DATA\<rparr>
      else d)"

definition act_RECV_DATA :: "config \<Rightarrow> regs \<Rightarrow> inputs \<Rightarrow> signals" where
  "act_RECV_DATA c s i =
     (let d = (comb_reset s)\<lparr>cycle_counter_ce := True, dq_oe := False, cs_n := False,
                clk := True,
                sr_next_value := Some (cat_dq c (dq1_i i) (dq2_i i) (sr s))\<rparr> in
      if unat (cycle_counter s) = wbone_width c div spi_width c div 2 then
        d\<lparr>cycle_counter_reset := True, next_state := WAIT_RECV_MORE, ack := True\<rparr>
      else d)"

definition act_WAIT_SEND_MORE :: "config \<Rightarrow> regs \<Rightarrow> inputs \<Rightarrow> signals" where
  "act_WAIT_SEND_MORE c s i =
     (let d = (comb_reset s)\<lparr>cs_n := False\<rparr> in
      if cyc i \<and> stb i then
        (let d = d\<lparr>next_state := IDLE\<rparr> in
         if adr i = unat (next_addr s) then
           (if we i then
              d\<lparr>next_addr_next_value := Some (adr i + 1), next_state := SEND_DATA\<rparr>
            else d)
         else d)
      else d)"

definition act_WAIT_RECV_MORE :: "config \<Rightarrow> regs \<Rightarrow> inputs \<Rightarrow> signals" where
  "act_WAIT_RECV_MORE c s i =
     (let d = (comb_reset s)\<lparr>cs_n := False\<rparr> in
      if cyc i \<and> stb i then
        (let d = d\<lparr>next_state := IDLE\<rparr> in
         if adr i = unat (next_addr s) then
           (if \<not> we i then
              d\<lparr>next_addr_next_value := Some (adr i + 1), next_state := RECV_DATA\<rparr>
            else d)
         else d)
      else d)"

definition fsm_act :: "config \<Rightarrow> regs \<Rightarrow> inputs \<Rightarrow> signals" where
  "fsm_act c s i =
     (case state s of
        IDLE \<Rightarrow> act_IDLE c s i
      | SEND_CMD \<Rightarrow> act_SEND_CMD c s i
      | SEND_ADDR \<Rightarrow> act_SEND_ADDR c s i
      | SEND_DATA \<Rightarrow> act_SEND_DATA c s i
      | RECV_DATA_DUMMY \<Rightarrow> act_RECV_DATA_DUMMY c s i
      | RECV_DATA \<Rightarrow> act_RECV_DATA c s i
      | WAIT_SEND_MORE \<Rightarrow> act_WAIT_SEND_MORE c s i
      | WAIT_RECV_MORE \<Rightarrow> act_WAIT_RECV_MORE c s i)"

text \<open>
  The clock edge. The cycle counter follows
  \<^verbatim>\<open>If(cycle_counter_reset, cycle_counter.eq(0)).Elif(cycle_counter_ce, cycle_counter.eq(cycle_counter + 1))\<close>
  and wraps at 5 bits; a register with an active \<open>NextValue\<close> takes its value, truncated
  to the register's width; the state takes \<open>next_state\<close>.
\<close>

definition tick :: "config \<Rightarrow> regs \<Rightarrow> signals \<Rightarrow> regs" where
  "tick c s d =
     \<lparr>state = next_state d,
      sr = (case sr_next_value d of None \<Rightarrow> sr s | Some v \<Rightarrow> v mod 2 ^ sr_width c),
      cycle_counter =
        (if cycle_counter_reset d then 0
         else if cycle_counter_ce d then cycle_counter s + 1
         else cycle_counter s),
      is_write = (case is_write_next_value d of None \<Rightarrow> is_write s | Some b \<Rightarrow> b),
      next_addr =
        (case next_addr_next_value d of None \<Rightarrow> next_addr s | Some a \<Rightarrow> word_of_nat a)\<rparr>"

definition step :: "config \<Rightarrow> regs \<Rightarrow> inputs \<Rightarrow> regs" where
  "step c s i = tick c s (fsm_act c s i)"

text \<open>
  The data outputs:
  \<^verbatim>\<open>
  dq1.o.eq(sr[-spi_width:]),
  If(gang_outputs, dq2.o.eq(sr[-spi_width:]),
  ).Else(dq2.o.eq(sr[-(spi_width*2):-spi_width])),
  dq1.oe.eq(dq_oe), dq2.oe.eq(dq_oe)
  \<close>
\<close>

definition dq1_o :: "config \<Rightarrow> regs \<Rightarrow> nat" where
  "dq1_o c s = bit_slice (sr s) (sr_width c - spi_width c) (sr_width c)"

definition dq2_o :: "config \<Rightarrow> regs \<Rightarrow> inputs \<Rightarrow> nat" where
  "dq2_o c s i =
     (if gang_outputs (fsm_act c s i) then bit_slice (sr s) (sr_width c - spi_width c) (sr_width c)
      else bit_slice (sr s) (sr_width c - spi_width c * 2) (sr_width c - spi_width c))"

subsection \<open>Runs\<close>

text \<open>
  A run feeds the machine one input per clock cycle. Its trace lists, for every cycle,
  the state the machine is in and whether it acknowledges the bus in that cycle; its
  output trace lists what the two chips are driven with.
\<close>

fun run :: "config \<Rightarrow> regs \<Rightarrow> inputs list \<Rightarrow> regs" where
  "run c s [] = s"
| "run c s (i # ins) = run c (step c s i) ins"

fun trace :: "config \<Rightarrow> regs \<Rightarrow> inputs list \<Rightarrow> (fsm_state \<times> bool) list" where
  "trace c s [] = []"
| "trace c s (i # ins) = (state s, ack (fsm_act c s i)) # trace c (step c s i) ins"

fun dq_trace :: "config \<Rightarrow> regs \<Rightarrow> inputs list \<Rightarrow> (nat \<times> nat) list" where
  "dq_trace c s [] = []"
| "dq_trace c s (i # ins) = (dq1_o c s, dq2_o c s i) # dq_trace c (step c s i) ins"

text \<open>
  After reset the machine is in \<open>IDLE\<close> with cleared registers; the cycle counter is
  \<open>reset_less\<close> and starts with any value. A state is reachable when some inputs lead
  from reset to it.
\<close>

definition reset_regs :: "5 word \<Rightarrow> regs" where
  "reset_regs cc = \<lparr>state = IDLE, sr = 0, cycle_counter = cc, is_write = False, next_addr = 0\<rparr>"

inductive reachable :: "config \<Rightarrow> regs \<Rightarrow> bool" for c :: config where
  reachable_reset: "reachable c (reset_regs cc)"
| reachable_step: "reachable c s \<Longrightarrow> reachable c (step c s i)"

text \<open>A Wishbone request that is pending in a cycle, with its direction and address.\<close>

definition request :: "bool \<Rightarrow> nat \<Rightarrow> inputs \<Rightarrow> bool" where
  "request w a i \<longleftrightarrow> cyc i \<and> stb i \<and> we i = w \<and> adr i = a"

subsection \<open>Example configuration and requests\<close>

text \<open>
  The configuration that \<open>construct 4 4 5 32\<close> returns (two quad chips, the default of 5
  for \<open>dummy\<close>, a 32-bit bus), and a read and a write request as the bus presents them.
\<close>

definition example_config :: config where
  "example_config =
     \<lparr>spi_width = 4, cmd_width = 32, read_cmd = 0xFFFEFEFF, write_cmd = 0xEEFFFEEE,
      addr_width = 24, wbone_width = 32, dummy = 5\<rparr>"

definition read_request :: "nat \<Rightarrow> inputs" where
  "read_request a =
     \<lparr>cyc = True, stb = True, we = False, adr = a, dat_w = 0, dq1_i = 0, dq2_i = 0\<rparr>"

definition write_request :: "nat \<Rightarrow> nat \<Rightarrow> inputs" where
  "write_request a v =
     \<lparr>cyc = True, stb = True, we = True, adr = a, dat_w = v, dq1_i = 0, dq2_i = 0\<rparr>"

text \<open>
  The value the cycle counter is compared with to leave a state, for the five states
  that count: it collects the tests of the \<open>fsm.act\<close> blocks and is only used to state
  lemmas about them.
\<close>

definition exit_count :: "config \<Rightarrow> fsm_state \<Rightarrow> int option" where
  "exit_count c st =
     (case st of
        SEND_CMD \<Rightarrow> Some (int (cmd_width c div spi_width c) - 1)
      | SEND_ADDR \<Rightarrow> Some (int (addr_width c div spi_width c) - 1)
      | SEND_DATA \<Rightarrow> Some (int (wbone_width c div spi_width c div 2) - 1)
      | RECV_DATA_DUMMY \<Rightarrow> Some (int (dummy c))
      | RECV_DATA \<Rightarrow> Some (int (wbone_width c div spi_width c div 2))
      | _ \<Rightarrow> None)"

section \<open>Properties of the command formatter\<close>

lemma drop_bit_mod2: "drop_bit b (cmd::int) mod 2 \<noteq> 0 \<longleftrightarrow> bit cmd b"
  by (simp add: bit_iff_odd_drop_bit odd_iff_mod_2_eq_one)

lemma bit_format_cmd_loop:
  "bit (format_cmd_loop cmd w bs c) i \<longleftrightarrow>
     bit c i \<and> \<not> (\<exists>b \<in> set bs. i = b * w \<and> \<not> bit cmd b)"
proof (induction bs arbitrary: c)
  case Nil
  show ?case by simp
next
  case (Cons b bs)
  show ?case
    unfolding format_cmd_loop.simps drop_bit_mod2 Cons.IH
    by (auto simp: bit_and_iff bit_not_iff bit_push_bit_iff bit_1_iff bit_exp_iff)
qed

lemma bit_format_cmd:
  "bit (format_cmd cmd w) i \<longleftrightarrow> i < 8 * w \<and> \<not> (\<exists>b < 8. i = b * w \<and> \<not> bit cmd b)"
proof -
  have "(2::int) ^ (8 * w) - 1 = mask (8 * w)"
    by (simp add: mask_eq_exp_minus_1)
  then show ?thesis
    by (auto simp: format_cmd_def bit_format_cmd_loop bit_mask_iff)
qed

lemma format_cmd_take_bit: "format_cmd cmd w = take_bit (8 * w) (format_cmd cmd w)"
  by (rule bit_eqI) (auto simp: bit_take_bit_iff bit_format_cmd)

lemma format_cmd_range: "0 \<le> format_cmd cmd w \<and> format_cmd cmd w < 2 ^ (8 * w)"
proof -
  have "0 \<le> take_bit (8 * w) (format_cmd cmd w)"
    and "take_bit (8 * w) (format_cmd cmd w) < 2 ^ (8 * w)"
    by simp_all
  then show ?thesis
    using format_cmd_take_bit [of cmd w] by simp
qed

text \<open>The only wire position of a group that can be cleared is its lane-0 slot.\<close>

lemma lane_slot:
  assumes "0 < w" "i < 8 * w"
  shows "(\<exists>b < 8. i = b * w \<and> \<not> bit cmd b) \<longleftrightarrow> w dvd i \<and> \<not> bit (cmd::int) (i div w)"
proof
  assume "\<exists>b < 8. i = b * w \<and> \<not> bit cmd b"
  then obtain b where "b < 8" "i = b * w" "\<not> bit cmd b" by blast
  with assms show "w dvd i \<and> \<not> bit cmd (i div w)" by simp
next
  assume r: "w dvd i \<and> \<not> bit cmd (i div w)"
  then have "i = (i div w) * w" by simp
  moreover from assms have "i div w < 8"
    by (simp add: less_mult_imp_div_less mult.commute)
  ultimately show "\<exists>b < 8. i = b * w \<and> \<not> bit cmd b"
    using r by blast
qed

lemma format_cmd_QIOFR: "format_cmd QIOFR 4 = 0xFFFEFEFF"
  by (simp add: format_cmd_def QIOFR_def upt_rec)

lemma format_cmd_QIOW: "format_cmd QIOW 4 = 0xEEFFFEEE"
  by (simp add: format_cmd_def QIOW_def upt_rec)

text \<open>
  Claim C4. For an 8-bit opcode and 1, 2 or 4 lanes, \<open>_format_cmd\<close> returns a word of
  \<open>8 * lanes\<close> bits: the bit at wire position \<open>b * lanes\<close> is bit \<open>b\<close> of the opcode, every
  other bit is 1. The quad I/O fast read \<open>0xEB\<close> on 4 lanes becomes \<open>0xFFFEFEFF\<close>.
\<close>

theorem format_cmd_interleaves:
  assumes "lanes \<in> {1, 2, 4}" and "0 \<le> opc" and "opc < 256"
  shows "0 \<le> format_cmd opc lanes \<and> format_cmd opc lanes < 2 ^ (8 * lanes)
    \<and> (\<forall>i < 8 * lanes. bit (format_cmd opc lanes) i \<longleftrightarrow>
          (if lanes dvd i then bit opc (i div lanes) else True))
    \<and> format_cmd 0xEB 4 = 0xFFFEFEFF"
proof -
  from assms(1) have pos: "0 < lanes" by auto
  have "bit (format_cmd opc lanes) i \<longleftrightarrow> (if lanes dvd i then bit opc (i div lanes) else True)"
    if "i < 8 * lanes" for i
    using that lane_slot [OF pos that, of opc] by (simp add: bit_format_cmd)
  moreover have "format_cmd 0xEB 4 = 0xFFFEFEFF"
    using format_cmd_QIOFR by (simp add: QIOFR_def)
  ultimately show ?thesis
    using format_cmd_range [of opc lanes] by blast
qed

theorem format_cmd_interleaves_witness:
  "(4::nat) \<in> {1, 2, 4} \<and> (0::int) \<le> 0xEB \<and> (0xEB::int) < 256
   \<and> format_cmd 0xEB 4 < 2 ^ (8 * 4)
   \<and> bit (format_cmd 0xEB 4) 8 = bit (0xEB::int) 2
   \<and> bit (format_cmd 0xEB 4) 9
   \<and> format_cmd 0xEB 4 = 0xFFFEFEFF"
  using format_cmd_interleaves [of 4 "0xEB"] by simp

text \<open>
  Claim C8. On one lane the formatter is the identity on 8-bit opcodes: nothing is
  interleaved.
\<close>

theorem format_cmd_one_lane:
  assumes "0 \<le> opc" and "opc < 256"
  shows "format_cmd opc 1 = opc"
proof (rule bit_eqI)
  fix i
  from assms have "take_bit 8 opc = opc"
    by (simp add: take_bit_int_eq_self)
  then have "bit opc i \<longleftrightarrow> i < 8 \<and> bit opc i"
    by (metis bit_take_bit_iff)
  then show "bit (format_cmd opc 1) i \<longleftrightarrow> bit opc i"
    by (auto simp: bit_format_cmd)
qed

theorem format_cmd_one_lane_witness:
  "(0::int) \<le> 0x0b \<and> (0x0b::int) < 256 \<and> format_cmd 0x0b 1 = 0x0b"
  using format_cmd_one_lane [of "0x0b"] by simp

section \<open>Construction\<close>

lemma construct_cases:
  "construct l1 l2 d w =
     (if l1 < 2 then Inl AssertionError
      else if l1 \<noteq> l2 then Inl AssertionError
      else if l1 = 4 then
        Inr \<lparr>spi_width = 4, cmd_width = 32, read_cmd = 0xFFFEFEFF, write_cmd = 0xEEFFFEEE,
             addr_width = 24, wbone_width = w, dummy = d\<rparr>
      else Inl KeyError)"
  by (simp add: construct_def read_cmd_params_def write_cmd_params_def
      format_cmd_QIOFR format_cmd_QIOW)

text \<open>
  Claim C5, as the code has it. Construction succeeds exactly when both chips have 4 data
  lines. One lane is refused by the assertion \<open>spi_width >= 2\<close>, two lanes have no entry
  in \<open>write_cmd_params\<close>, any other width has no entry in \<open>read_cmd_params\<close>, and
  different widths on the two chips are refused by the second assertion. Every failure
  happens in the constructor.
\<close>

theorem construct_quad_only:
  "((\<exists>c. construct l1 l2 d w = Inr c) \<longleftrightarrow> l1 = 4 \<and> l2 = 4)
   \<and> construct l1 l2 d w =
     (if l1 < 2 then Inl AssertionError
      else if l1 \<noteq> l2 then Inl AssertionError
      else if l1 = 4 then
        Inr \<lparr>spi_width = 4, cmd_width = 32, read_cmd = 0xFFFEFEFF, write_cmd = 0xEEFFFEEE,
             addr_width = 24, wbone_width = w, dummy = d\<rparr>
      else Inl KeyError)"
  by (auto simp: construct_cases)

text \<open>
  The claim as the specification words it fails for one lane and for two lanes on both
  chips: neither configuration can be built.
\<close>

theorem construct_one_and_two_lanes_fail:
  "construct 1 1 5 32 = Inl AssertionError \<and> construct 2 2 5 32 = Inl KeyError"
  by (simp add: construct_cases)

section \<open>The state machine, cycle by cycle\<close>

lemma fsm_act_simps:
  "state s = IDLE \<Longrightarrow> fsm_act c s i = act_IDLE c s i"
  "state s = SEND_CMD \<Longrightarrow> fsm_act c s i = act_SEND_CMD c s i"
  "state s = SEND_ADDR \<Longrightarrow> fsm_act c s i = act_SEND_ADDR c s i"
  "state s = SEND_DATA \<Longrightarrow> fsm_act c s i = act_SEND_DATA c s i"
  "state s = RECV_DATA_DUMMY \<Longrightarrow> fsm_act c s i = act_RECV_DATA_DUMMY c s i"
  "state s = RECV_DATA \<Longrightarrow> fsm_act c s i = act_RECV_DATA c s i"
  "state s = WAIT_SEND_MORE \<Longrightarrow> fsm_act c s i = act_WAIT_SEND_MORE c s i"
  "state s = WAIT_RECV_MORE \<Longrightarrow> fsm_act c s i = act_WAIT_RECV_MORE c s i"
  by (simp_all add: fsm_act_def)

lemmas step_simps = step_def tick_def fsm_act_simps comb_reset_def

lemma run_append: "run c s (xs @ ys) = run c (run c s xs) ys"
  by (induction xs arbitrary: s) simp_all

lemma trace_append: "trace c s (xs @ ys) = trace c s xs @ trace c (run c s xs) ys"
  by (induction xs arbitrary: s) simp_all

lemma length_trace: "length (trace c s ins) = length ins"
  by (induction ins arbitrary: s) simp_all

lemma stay_SEND_CMD:
  assumes "state s = SEND_CMD"
    and "int (unat (cycle_counter s)) \<noteq> int (cmd_width c div spi_width c) - 1"
  shows "state (step c s i) = SEND_CMD \<and> cycle_counter (step c s i) = cycle_counter s + 1
    \<and> \<not> ack (fsm_act c s i) \<and> next_addr (step c s i) = next_addr s"
  using assms by (simp add: step_simps act_SEND_CMD_def)

lemma stay_SEND_ADDR:
  assumes "state s = SEND_ADDR"
    and "int (unat (cycle_counter s)) \<noteq> int (addr_width c div spi_width c) - 1"
  shows "state (step c s i) = SEND_ADDR \<and> cycle_counter (step c s i) = cycle_counter s + 1
    \<and> \<not> ack (fsm_act c s i) \<and> next_addr (step c s i) = next_addr s
    \<and> is_write (step c s i) = is_write s"
  using assms by (simp add: step_simps act_SEND_ADDR_def)

lemma stay_SEND_DATA:
  assumes "state s = SEND_DATA"
    and "int (unat (cycle_counter s)) \<noteq> int (wbone_width c div spi_width c div 2) - 1"
  shows "state (step c s i) = SEND_DATA \<and> cycle_counter (step c s i) = cycle_counter s + 1
    \<and> \<not> ack (fsm_act c s i) \<and> next_addr (step c s i) = next_addr s
    \<and> is_write (step c s i) = is_write s"
  using assms by (simp add: step_simps act_SEND_DATA_def)

lemma stay_RECV_DATA_DUMMY:
  assumes "state s = RECV_DATA_DUMMY" and "unat (cycle_counter s) \<noteq> dummy c"
  shows "state (step c s i) = RECV_DATA_DUMMY \<and> cycle_counter (step c s i) = cycle_counter s + 1
    \<and> \<not> ack (fsm_act c s i) \<and> next_addr (step c s i) = next_addr s
    \<and> is_write (step c s i) = is_write s \<and> sr (step c s i) = sr s"
  using assms by (simp add: step_simps act_RECV_DATA_DUMMY_def)

lemma stay_RECV_DATA:
  assumes "state s = RECV_DATA"
    and "unat (cycle_counter s) \<noteq> wbone_width c div spi_width c div 2"
  shows "state (step c s i) = RECV_DATA \<and> cycle_counter (step c s i) = cycle_counter s + 1
    \<and> \<not> ack (fsm_act c s i) \<and> next_addr (step c s i) = next_addr s
    \<and> is_write (step c s i) = is_write s"
  using assms by (simp add: step_simps act_RECV_DATA_def)

lemma step_counting:
  assumes "exit_count c (state s) = Some T" and "int (unat (cycle_counter s)) \<noteq> T"
  shows "state (step c s i) = state s \<and> cycle_counter (step c s i) = cycle_counter s + 1
    \<and> \<not> ack (fsm_act c s i) \<and> next_addr (step c s i) = next_addr s
    \<and> (state s \<noteq> SEND_CMD \<longrightarrow> is_write (step c s i) = is_write s)"
proof (cases "state s")
  case SEND_CMD
  with assms stay_SEND_CMD [of s c i] show ?thesis by (simp add: exit_count_def)
next
  case SEND_ADDR
  with assms stay_SEND_ADDR [of s c i] show ?thesis by (simp add: exit_count_def)
next
  case SEND_DATA
  with assms stay_SEND_DATA [of s c i] show ?thesis by (simp add: exit_count_def)
next
  case RECV_DATA_DUMMY
  with assms stay_RECV_DATA_DUMMY [of s c i] show ?thesis
    by (simp add: exit_count_def del: of_nat_unat)
next
  case RECV_DATA
  with assms stay_RECV_DATA [of s c i] show ?thesis
    by (simp add: exit_count_def del: of_nat_unat)
qed (use assms in \<open>simp_all add: exit_count_def\<close>)

lemma run_counting:
  assumes "exit_count c (state s) = Some T" and "T < 32"
    and "int (unat (cycle_counter s)) + int (length ins) \<le> T"
  shows "state (run c s ins) = state s
    \<and> unat (cycle_counter (run c s ins)) = unat (cycle_counter s) + length ins
    \<and> trace c s ins = replicate (length ins) (state s, False)
    \<and> next_addr (run c s ins) = next_addr s
    \<and> (state s \<noteq> SEND_CMD \<longrightarrow> is_write (run c s ins) = is_write s)"
  using assms
proof (induction ins arbitrary: s)
  case Nil
  show ?case by simp
next
  case (Cons i ins)
  let ?s' = "step c s i"
  from Cons.prems have ne: "int (unat (cycle_counter s)) \<noteq> T"
    and small: "unat (cycle_counter s) < 31"
    by (simp_all del: of_nat_unat)
  note st = step_counting [OF Cons.prems(1) ne, of i]
  from small have inc: "unat (cycle_counter s + 1) = unat (cycle_counter s) + 1"
    by (simp add: unat_word_ariths)
  have "exit_count c (state ?s') = Some T"
    using st Cons.prems(1) by simp
  moreover have "int (unat (cycle_counter ?s')) + int (length ins) \<le> T"
    using st inc Cons.prems(3) by (simp del: of_nat_unat)
  ultimately have IH: "state (run c ?s' ins) = state ?s'
    \<and> unat (cycle_counter (run c ?s' ins)) = unat (cycle_counter ?s') + length ins
    \<and> trace c ?s' ins = replicate (length ins) (state ?s', False)
    \<and> next_addr (run c ?s' ins) = next_addr ?s'
    \<and> (state ?s' \<noteq> SEND_CMD \<longrightarrow> is_write (run c ?s' ins) = is_write ?s')"
    using Cons.IH [of ?s'] Cons.prems(2) by blast
  show ?case
    using IH st inc by simp
qed

lemma exit_IDLE:
  assumes "state s = IDLE" and "cyc i" and "stb i"
  shows "step c s i =
      \<lparr>state = SEND_CMD,
       sr = (if we i then nat (write_cmd c) else nat (read_cmd c)) mod 2 ^ sr_width c,
       cycle_counter = 0, is_write = is_write s, next_addr = next_addr s\<rparr>
    \<and> \<not> ack (fsm_act c s i)"
  using assms by (simp add: step_simps act_IDLE_def)

lemma exit_SEND_CMD:
  assumes "state s = SEND_CMD"
    and "int (unat (cycle_counter s)) = int (cmd_width c div spi_width c) - 1"
  shows "step c s i =
      \<lparr>state = SEND_ADDR, sr = (adr i * 2) mod 2 ^ sr_width c, cycle_counter = 0,
       is_write = we i, next_addr = word_of_nat (adr i + 1)\<rparr>
    \<and> \<not> ack (fsm_act c s i)"
  using assms by (simp add: step_simps act_SEND_CMD_def)

lemma exit_SEND_ADDR:
  assumes "state s = SEND_ADDR"
    and "int (unat (cycle_counter s)) = int (addr_width c div spi_width c) - 1"
  shows "state (step c s i) = (if is_write s then SEND_DATA else RECV_DATA_DUMMY)
    \<and> cycle_counter (step c s i) = 0
    \<and> is_write (step c s i) = is_write s
    \<and> next_addr (step c s i) = next_addr s
    \<and> (is_write s \<longrightarrow> sr (step c s i) = dat_w i mod 2 ^ wbone_width c mod 2 ^ sr_width c)
    \<and> \<not> ack (fsm_act c s i)"
  using assms by (simp add: step_simps act_SEND_ADDR_def)

lemma exit_SEND_DATA:
  assumes "state s = SEND_DATA"
    and "int (unat (cycle_counter s)) = int (wbone_width c div spi_width c div 2) - 1"
  shows "state (step c s i) = WAIT_SEND_MORE
    \<and> cycle_counter (step c s i) = 0
    \<and> is_write (step c s i) = is_write s
    \<and> next_addr (step c s i) = next_addr s
    \<and> ack (fsm_act c s i)"
  using assms by (simp add: step_simps act_SEND_DATA_def)

lemma exit_RECV_DATA_DUMMY:
  assumes "state s = RECV_DATA_DUMMY" and "unat (cycle_counter s) = dummy c"
  shows "state (step c s i) = RECV_DATA
    \<and> cycle_counter (step c s i) = 0
    \<and> is_write (step c s i) = is_write s
    \<and> next_addr (step c s i) = next_addr s
    \<and> sr (step c s i) = sr s
    \<and> \<not> ack (fsm_act c s i)"
  using assms by (simp add: step_simps act_RECV_DATA_DUMMY_def)

lemma exit_RECV_DATA:
  assumes "state s = RECV_DATA"
    and "unat (cycle_counter s) = wbone_width c div spi_width c div 2"
  shows "state (step c s i) = WAIT_RECV_MORE
    \<and> cycle_counter (step c s i) = 0
    \<and> is_write (step c s i) = is_write s
    \<and> next_addr (step c s i) = next_addr s
    \<and> ack (fsm_act c s i)"
  using assms by (simp add: step_simps act_RECV_DATA_def)

lemma step_WAIT_SEND_MORE:
  assumes "state s = WAIT_SEND_MORE"
  shows "state (step c s i) =
      (if cyc i \<and> stb i then
         if adr i = unat (next_addr s) \<and> we i then SEND_DATA else IDLE
       else WAIT_SEND_MORE)
    \<and> next_addr (step c s i) =
      (if cyc i \<and> stb i \<and> adr i = unat (next_addr s) \<and> we i then word_of_nat (adr i + 1)
       else next_addr s)
    \<and> cycle_counter (step c s i) = cycle_counter s
    \<and> sr (step c s i) = sr s
    \<and> is_write (step c s i) = is_write s
    \<and> \<not> ack (fsm_act c s i)"
  using assms by (simp add: step_simps act_WAIT_SEND_MORE_def Let_def)

lemma step_WAIT_RECV_MORE:
  assumes "state s = WAIT_RECV_MORE"
  shows "state (step c s i) =
      (if cyc i \<and> stb i then
         if adr i = unat (next_addr s) \<and> \<not> we i then RECV_DATA else IDLE
       else WAIT_RECV_MORE)
    \<and> next_addr (step c s i) =
      (if cyc i \<and> stb i \<and> adr i = unat (next_addr s) \<and> \<not> we i then word_of_nat (adr i + 1)
       else next_addr s)
    \<and> cycle_counter (step c s i) = cycle_counter s
    \<and> sr (step c s i) = sr s
    \<and> is_write (step c s i) = is_write s
    \<and> \<not> ack (fsm_act c s i)"
  using assms by (simp add: step_simps act_WAIT_RECV_MORE_def Let_def)

text \<open>A whole phase: the cycles before the exit test holds, then the cycle in which it holds.\<close>

lemma phase:
  assumes "exit_count c (state s) = Some (int n)" and "n < 32"
    and "cycle_counter s = 0" and "length ins = Suc n"
  shows "run c s ins = step c (run c s (butlast ins)) (last ins)
    \<and> state (run c s (butlast ins)) = state s
    \<and> unat (cycle_counter (run c s (butlast ins))) = n
    \<and> next_addr (run c s (butlast ins)) = next_addr s
    \<and> (state s \<noteq> SEND_CMD \<longrightarrow> is_write (run c s (butlast ins)) = is_write s)
    \<and> trace c s ins = replicate n (state s, False)
        @ [(state s, ack (fsm_act c (run c s (butlast ins)) (last ins)))]"
proof -
  from assms(4) obtain ys y where ins: "ins = ys @ [y]" and len: "length ys = n"
    by (metis length_Suc_conv_rev)
  have "int (unat (cycle_counter s)) + int (length ys) \<le> int n"
    using assms(3) len by simp
  from run_counting [OF assms(1) _ this] assms(2,3) len
  have "state (run c s ys) = state s"
    and "unat (cycle_counter (run c s ys)) = n"
    and "trace c s ys = replicate n (state s, False)"
    and "next_addr (run c s ys) = next_addr s"
    and "state s \<noteq> SEND_CMD \<longrightarrow> is_write (run c s ys) = is_write s"
    by simp_all
  then show ?thesis
    unfolding ins by (simp add: run_append trace_append)
qed

lemma phase_SEND_CMD:
  assumes "state s = SEND_CMD" and "cycle_counter s = 0"
    and "cmd_width c div spi_width c = Suc n" and "n < 32" and "length ins = Suc n"
  shows "run c s ins =
      \<lparr>state = SEND_ADDR, sr = (adr (last ins) * 2) mod 2 ^ sr_width c, cycle_counter = 0,
       is_write = we (last ins), next_addr = word_of_nat (adr (last ins) + 1)\<rparr>
    \<and> trace c s ins = replicate (Suc n) (SEND_CMD, False)"
proof -
  have "exit_count c (state s) = Some (int n)"
    using assms(1,3) by (simp add: exit_count_def)
  note ph = phase [OF this assms(4,2,5)]
  let ?s' = "run c s (butlast ins)"
  have "int (unat (cycle_counter ?s')) = int (cmd_width c div spi_width c) - 1"
    using ph assms(3) by (simp del: of_nat_unat)
  from exit_SEND_CMD [OF _ this, of "last ins"] ph assms(1)
  show ?thesis by (simp add: replicate_append_same)
qed

lemma phase_SEND_ADDR:
  assumes "state s = SEND_ADDR" and "cycle_counter s = 0"
    and "addr_width c div spi_width c = Suc n" and "n < 32" and "length ins = Suc n"
  shows "state (run c s ins) = (if is_write s then SEND_DATA else RECV_DATA_DUMMY)
    \<and> cycle_counter (run c s ins) = 0
    \<and> is_write (run c s ins) = is_write s
    \<and> next_addr (run c s ins) = next_addr s
    \<and> (is_write s \<longrightarrow>
         sr (run c s ins) = dat_w (last ins) mod 2 ^ wbone_width c mod 2 ^ sr_width c)
    \<and> trace c s ins = replicate (Suc n) (SEND_ADDR, False)"
proof -
  have "exit_count c (state s) = Some (int n)"
    using assms(1,3) by (simp add: exit_count_def)
  note ph = phase [OF this assms(4,2,5)]
  let ?s' = "run c s (butlast ins)"
  have "int (unat (cycle_counter ?s')) = int (addr_width c div spi_width c) - 1"
    using ph assms(3) by (simp del: of_nat_unat)
  from exit_SEND_ADDR [OF _ this, of "last ins"] ph assms(1)
  show ?thesis by (simp add: replicate_append_same)
qed

lemma phase_SEND_DATA:
  assumes "state s = SEND_DATA" and "cycle_counter s = 0"
    and "wbone_width c div spi_width c div 2 = Suc n" and "n < 32" and "length ins = Suc n"
  shows "state (run c s ins) = WAIT_SEND_MORE
    \<and> cycle_counter (run c s ins) = 0
    \<and> is_write (run c s ins) = is_write s
    \<and> next_addr (run c s ins) = next_addr s
    \<and> trace c s ins = replicate n (SEND_DATA, False) @ [(SEND_DATA, True)]"
proof -
  have "exit_count c (state s) = Some (int n)"
    using assms(1,3) by (simp add: exit_count_def)
  note ph = phase [OF this assms(4,2,5)]
  let ?s' = "run c s (butlast ins)"
  have "int (unat (cycle_counter ?s')) = int (wbone_width c div spi_width c div 2) - 1"
    using ph assms(3) by (simp del: of_nat_unat)
  from exit_SEND_DATA [OF _ this, of "last ins"] ph assms(1)
  show ?thesis by simp
qed

lemma phase_RECV_DATA_DUMMY:
  assumes "state s = RECV_DATA_DUMMY" and "cycle_counter s = 0"
    and "dummy c < 32" and "length ins = Suc (dummy c)"
  shows "state (run c s ins) = RECV_DATA
    \<and> cycle_counter (run c s ins) = 0
    \<and> is_write (run c s ins) = is_write s
    \<and> next_addr (run c s ins) = next_addr s
    \<and> trace c s ins = replicate (Suc (dummy c)) (RECV_DATA_DUMMY, False)"
proof -
  have "exit_count c (state s) = Some (int (dummy c))"
    using assms(1) by (simp add: exit_count_def)
  note ph = phase [OF this assms(3,2,4)]
  let ?s' = "run c s (butlast ins)"
  have "unat (cycle_counter ?s') = dummy c"
    using ph by simp
  from exit_RECV_DATA_DUMMY [OF _ this, of "last ins"] ph assms(1)
  show ?thesis by (simp add: replicate_append_same)
qed

lemma phase_RECV_DATA:
  assumes "state s = RECV_DATA" and "cycle_counter s = 0"
    and "wbone_width c div spi_width c div 2 = n" and "n < 32" and "length ins = Suc n"
  shows "state (run c s ins) = WAIT_RECV_MORE
    \<and> cycle_counter (run c s ins) = 0
    \<and> is_write (run c s ins) = is_write s
    \<and> next_addr (run c s ins) = next_addr s
    \<and> trace c s ins = replicate n (RECV_DATA, False) @ [(RECV_DATA, True)]"
proof -
  have "exit_count c (state s) = Some (int n)"
    using assms(1,3) by (simp add: exit_count_def)
  note ph = phase [OF this assms(4,2,5)]
  let ?s' = "run c s (butlast ins)"
  have "unat (cycle_counter ?s') = wbone_width c div spi_width c div 2"
    using ph assms(3) by simp
  from exit_RECV_DATA [OF _ this, of "last ins"] ph assms(1)
  show ?thesis by simp
qed

section \<open>Whole transactions\<close>

lemma construct_Inr:
  assumes "construct l1 l2 d w = Inr c"
  shows "c = \<lparr>spi_width = 4, cmd_width = 32, read_cmd = 0xFFFEFEFF, write_cmd = 0xEEFFFEEE,
             addr_width = 24, wbone_width = w, dummy = d\<rparr>"
  using assms by (simp add: construct_cases split: if_splits)

lemma split_length:
  assumes "length xs = m + n"
  shows "\<exists>ys zs. xs = ys @ zs \<and> length ys = m \<and> length zs = n"
  using assms by (intro exI [of _ "take m xs"] exI [of _ "drop m xs"]) simp

lemma request_last:
  assumes "\<forall>i \<in> set ins. request wr a i" and "ins \<noteq> []"
  shows "we (last ins) = wr" and "adr (last ins) = a"
  using assms by (simp_all add: request_def)

text \<open>The command and address phases of a request that is found pending in IDLE.\<close>

lemma command_address:
  assumes cfg: "construct l1 l2 d w = Inr c"
    and idle: "state s = IDLE"
    and held: "\<forall>i \<in> set ins. request wr a i"
    and len: "length ins = 1 + 8 + 6"
  shows "trace c s ins =
      (IDLE, False) # replicate 8 (SEND_CMD, False) @ replicate 6 (SEND_ADDR, False)
    \<and> state (run c s ins) = (if wr then SEND_DATA else RECV_DATA_DUMMY)
    \<and> cycle_counter (run c s ins) = 0
    \<and> next_addr (run c s ins) = word_of_nat (a + 1)
    \<and> is_write (run c s ins) = wr
    \<and> (wr \<longrightarrow> sr (run c s ins) = dat_w (last ins) mod 2 ^ wbone_width c mod 2 ^ sr_width c)"
proof -
  note c = construct_Inr [OF cfg]
  from len obtain i0 r0 where ins: "ins = i0 # r0" and l0: "length r0 = 8 + 6"
    by (cases ins) auto
  from split_length [OF l0] obtain cs as where r0: "r0 = cs @ as"
    and lcs: "length cs = 8" and las: "length as = 6" by blast
  have i0: "cyc i0" "stb i0" using held ins by (simp_all add: request_def)
  have csne: "cs \<noteq> []" and asne: "as \<noteq> []" using lcs las by auto
  have "\<forall>i \<in> set cs. request wr a i" using held ins r0 by simp
  note lastcs = request_last [OF this csne]
  let ?s1 = "step c s i0"
  from exit_IDLE [OF idle i0, of c]
  have s1: "state ?s1 = SEND_CMD" "cycle_counter ?s1 = 0" "\<not> ack (fsm_act c s i0)"
    by simp_all
  let ?s2 = "run c ?s1 cs"
  have "cmd_width c div spi_width c = Suc 7" by (simp add: c)
  from phase_SEND_CMD [OF s1(1,2) this _ , of cs] lcs lastcs
  have s2: "state ?s2 = SEND_ADDR" "cycle_counter ?s2 = 0" "is_write ?s2 = wr"
    "next_addr ?s2 = word_of_nat (a + 1)"
    and t2: "trace c ?s1 cs = replicate 8 (SEND_CMD, False)"
    by simp_all
  let ?s3 = "run c ?s2 as"
  have "addr_width c div spi_width c = Suc 5" by (simp add: c)
  from phase_SEND_ADDR [OF s2(1,2) this _ , of as] las s2
  have s3: "state ?s3 = (if wr then SEND_DATA else RECV_DATA_DUMMY)"
    "cycle_counter ?s3 = 0" "is_write ?s3 = wr"
    "next_addr ?s3 = word_of_nat (a + 1)"
    "wr \<longrightarrow> sr ?s3 = dat_w (last as) mod 2 ^ wbone_width c mod 2 ^ sr_width c"
    and t3: "trace c ?s2 as = replicate 6 (SEND_ADDR, False)"
    by simp_all
  show ?thesis
    unfolding ins r0
    using idle s1 t2 t3 s3 asne by (simp add: run_append trace_append)
qed

text \<open>A write that starts in IDLE.\<close>

lemma write_transaction:
  assumes cfg: "construct l1 l2 d w = Inr c" and w: "8 \<le> w" "w < 264"
    and idle: "state s = IDLE"
    and held: "\<forall>i \<in> set ins. request True a i"
    and len: "length ins = 1 + 8 + 6 + w div 8"
  shows "trace c s ins =
      (IDLE, False) # replicate 8 (SEND_CMD, False) @ replicate 6 (SEND_ADDR, False)
        @ replicate (w div 8 - 1) (SEND_DATA, False) @ [(SEND_DATA, True)]
    \<and> state (run c s ins) = WAIT_SEND_MORE
    \<and> cycle_counter (run c s ins) = 0
    \<and> next_addr (run c s ins) = word_of_nat (a + 1)
    \<and> is_write (run c s ins)"
proof -
  note c = construct_Inr [OF cfg]
  from w obtain n where n: "w div 8 = Suc n" and n32: "n < 32"
    by (cases "w div 8") (auto simp: div_eq_0_iff)
  from len have "length ins = (1 + 8 + 6) + w div 8" by simp
  from split_length [OF this] obtain ca ds where ins: "ins = ca @ ds"
    and lca: "length ca = 1 + 8 + 6" and lds: "length ds = w div 8" by blast
  have "\<forall>i \<in> set ca. request True a i" using held ins by simp
  note ca = command_address [OF cfg idle this lca]
  let ?s3 = "run c s ca"
  have s3: "state ?s3 = SEND_DATA" "cycle_counter ?s3 = 0" using ca by simp_all
  have "wbone_width c div spi_width c div 2 = Suc n"
    using n by (simp add: c div_mult2_eq [symmetric])
  from phase_SEND_DATA [OF s3 this n32, of ds] lds n ca
  show ?thesis
    unfolding ins by (simp add: run_append trace_append)
qed

text \<open>A read that starts in IDLE.\<close>

lemma read_transaction:
  assumes cfg: "construct l1 l2 d w = Inr c" and d: "d < 32" and w: "w < 256"
    and idle: "state s = IDLE"
    and held: "\<forall>i \<in> set ins. request False a i"
    and len: "length ins = 1 + 8 + 6 + (d + 1) + (w div 8 + 1)"
  shows "trace c s ins =
      (IDLE, False) # replicate 8 (SEND_CMD, False) @ replicate 6 (SEND_ADDR, False)
        @ replicate (d + 1) (RECV_DATA_DUMMY, False)
        @ replicate (w div 8) (RECV_DATA, False) @ [(RECV_DATA, True)]
    \<and> state (run c s ins) = WAIT_RECV_MORE
    \<and> cycle_counter (run c s ins) = 0
    \<and> next_addr (run c s ins) = word_of_nat (a + 1)
    \<and> \<not> is_write (run c s ins)"
proof -
  note c = construct_Inr [OF cfg]
  from len have "length ins = (1 + 8 + 6) + ((d + 1) + (w div 8 + 1))" by simp
  from split_length [OF this] obtain ca r1 where ins: "ins = ca @ r1"
    and lca: "length ca = 1 + 8 + 6" and l1: "length r1 = (d + 1) + (w div 8 + 1)" by blast
  from split_length [OF l1] obtain dm ds where r1: "r1 = dm @ ds"
    and ldm: "length dm = d + 1" and lds: "length ds = w div 8 + 1" by blast
  have "\<forall>i \<in> set ca. request False a i" using held ins by simp
  note ca = command_address [OF cfg idle this lca]
  let ?s3 = "run c s ca"
  have s3: "state ?s3 = RECV_DATA_DUMMY" "cycle_counter ?s3 = 0" using ca by simp_all
  let ?s4 = "run c ?s3 dm"
  have "dummy c < 32" "length dm = Suc (dummy c)" using d ldm by (simp_all add: c)
  note dmy = phase_RECV_DATA_DUMMY [OF s3 this]
  have s4: "state ?s4 = RECV_DATA" "cycle_counter ?s4 = 0" using dmy by simp_all
  have "wbone_width c div spi_width c div 2 = w div 8"
    by (simp add: c div_mult2_eq [symmetric])
  moreover have "w div 8 < 32" using w by simp
  moreover have "length ds = Suc (w div 8)" using lds by simp
  ultimately have rcv: "state (run c ?s4 ds) = WAIT_RECV_MORE
    \<and> cycle_counter (run c ?s4 ds) = 0
    \<and> is_write (run c ?s4 ds) = is_write ?s4
    \<and> next_addr (run c ?s4 ds) = next_addr ?s4
    \<and> trace c ?s4 ds = replicate (w div 8) (RECV_DATA, False) @ [(RECV_DATA, True)]"
    using phase_RECV_DATA [OF s4, of c "w div 8" ds] by blast
  show ?thesis
    unfolding ins r1
    using ca dmy rcv by (simp add: run_append trace_append c)
qed

text \<open>In the two wait states the cycle counter is 0: they are entered with a reset of
  the counter and do not enable it.\<close>

lemma step_into_WAIT:
  assumes "state (step c s i) = WAIT_SEND_MORE \<or> state (step c s i) = WAIT_RECV_MORE"
  shows "cycle_counter (step c s i) = 0
    \<or> (state s = state (step c s i) \<and> cycle_counter (step c s i) = cycle_counter s)"
proof (cases "state s")
  case IDLE
  with assms show ?thesis by (simp add: step_simps act_IDLE_def Let_def split: if_splits)
next
  case SEND_CMD
  with assms show ?thesis by (simp add: step_simps act_SEND_CMD_def Let_def split: if_splits)
next
  case SEND_ADDR
  with assms show ?thesis by (simp add: step_simps act_SEND_ADDR_def Let_def split: if_splits)
next
  case SEND_DATA
  with assms show ?thesis by (simp add: step_simps act_SEND_DATA_def Let_def split: if_splits)
next
  case RECV_DATA_DUMMY
  with assms show ?thesis
    by (simp add: step_simps act_RECV_DATA_DUMMY_def Let_def split: if_splits)
next
  case RECV_DATA
  with assms show ?thesis by (simp add: step_simps act_RECV_DATA_def Let_def split: if_splits)
next
  case WAIT_SEND_MORE
  with assms step_WAIT_SEND_MORE [OF WAIT_SEND_MORE, of c i] show ?thesis
    by (auto split: if_splits)
next
  case WAIT_RECV_MORE
  with assms step_WAIT_RECV_MORE [OF WAIT_RECV_MORE, of c i] show ?thesis
    by (auto split: if_splits)
qed

lemma reachable_WAIT_counter:
  assumes "reachable c s" and "state s = WAIT_SEND_MORE \<or> state s = WAIT_RECV_MORE"
  shows "cycle_counter s = 0"
  using assms
proof (induction rule: reachable.induct)
  case (reachable_reset cc)
  then show ?case by (simp add: reset_regs_def)
next
  case (reachable_step s i)
  from step_into_WAIT [OF reachable_step.prems] reachable_step.IH reachable_step.prems
  show ?case by auto
qed

lemma reachable_run: "reachable c s \<Longrightarrow> reachable c (run c s ins)"
  by (induction ins arbitrary: s) (simp_all add: reachable_step)

text \<open>A write that continues a burst: found pending in WAIT_SEND_MORE at the next address.\<close>

lemma continued_write:
  assumes cfg: "construct l1 l2 d w = Inr c" and w: "8 \<le> w" "w < 264"
    and wait: "state s = WAIT_SEND_MORE" "cycle_counter s = 0"
    and held: "\<forall>i \<in> set ins. request True (unat (next_addr s)) i"
    and len: "length ins = 1 + w div 8"
  shows "trace c s ins =
      (WAIT_SEND_MORE, False) # replicate (w div 8 - 1) (SEND_DATA, False) @ [(SEND_DATA, True)]
    \<and> state (run c s ins) = WAIT_SEND_MORE
    \<and> cycle_counter (run c s ins) = 0
    \<and> next_addr (run c s ins) = next_addr s + 1"
proof -
  note c = construct_Inr [OF cfg]
  from w obtain n where n: "w div 8 = Suc n" and n32: "n < 32"
    by (cases "w div 8") (auto simp: div_eq_0_iff)
  from len obtain i0 ds where ins: "ins = i0 # ds" and lds: "length ds = w div 8"
    by (cases ins) auto
  have i0: "cyc i0" "stb i0" "we i0" "adr i0 = unat (next_addr s)"
    using held ins by (simp_all add: request_def)
  let ?s1 = "step c s i0"
  from step_WAIT_SEND_MORE [OF wait(1), of c i0] i0 wait(2)
  have s1: "state ?s1 = SEND_DATA" "cycle_counter ?s1 = 0"
    and na: "next_addr ?s1 = next_addr s + 1" and a1: "\<not> ack (fsm_act c s i0)"
    by simp_all
  have "wbone_width c div spi_width c div 2 = Suc n"
    using n by (simp add: c div_mult2_eq [symmetric])
  from phase_SEND_DATA [OF s1 this n32, of ds] lds n na a1 wait(1)
  show ?thesis
    unfolding ins by simp
qed

text \<open>A read that continues a burst: found pending in WAIT_RECV_MORE at the next address.\<close>

lemma continued_read:
  assumes cfg: "construct l1 l2 d w = Inr c" and w: "w < 256"
    and wait: "state s = WAIT_RECV_MORE" "cycle_counter s = 0"
    and held: "\<forall>i \<in> set ins. request False (unat (next_addr s)) i"
    and len: "length ins = 1 + (w div 8 + 1)"
  shows "trace c s ins =
      (WAIT_RECV_MORE, False) # replicate (w div 8) (RECV_DATA, False) @ [(RECV_DATA, True)]
    \<and> state (run c s ins) = WAIT_RECV_MORE
    \<and> cycle_counter (run c s ins) = 0
    \<and> next_addr (run c s ins) = next_addr s + 1"
proof -
  note c = construct_Inr [OF cfg]
  from len obtain i0 ds where ins: "ins = i0 # ds" and lds: "length ds = Suc (w div 8)"
    by (cases ins) auto
  have i0: "cyc i0" "stb i0" "\<not> we i0" "adr i0 = unat (next_addr s)"
    using held ins by (simp_all add: request_def)
  let ?s1 = "step c s i0"
  from step_WAIT_RECV_MORE [OF wait(1), of c i0] i0 wait(2)
  have s1: "state ?s1 = RECV_DATA" "cycle_counter ?s1 = 0"
    and na: "next_addr ?s1 = next_addr s + 1" and a1: "\<not> ack (fsm_act c s i0)"
    by simp_all
  have "wbone_width c div spi_width c div 2 = w div 8"
    by (simp add: c div_mult2_eq [symmetric])
  moreover have "w div 8 < 32" using w by simp
  ultimately have "state (run c ?s1 ds) = WAIT_RECV_MORE
    \<and> cycle_counter (run c ?s1 ds) = 0
    \<and> is_write (run c ?s1 ds) = is_write ?s1
    \<and> next_addr (run c ?s1 ds) = next_addr ?s1
    \<and> trace c ?s1 ds = replicate (w div 8) (RECV_DATA, False) @ [(RECV_DATA, True)]"
    using phase_RECV_DATA [OF s1, of c "w div 8" ds] lds by blast
  with na a1 wait(1) show ?thesis
    unfolding ins by simp
qed

section \<open>Example runs\<close>

lemma construct_example: "construct 4 4 5 32 = Inr example_config"
  by (simp add: construct_cases example_config_def)

lemma request_examples [simp]:
  "request False a (read_request a)" "request True a (write_request a v)"
  by (simp_all add: request_def read_request_def write_request_def)

lemma trace_take: "trace c s (take n ins) = take n (trace c s ins)"
proof (induction ins arbitrary: n s)
  case Nil
  show ?case by simp
next
  case (Cons i ins)
  show ?case by (cases n) (simp_all add: Cons.IH)
qed

lemma example_after_write:
  "reachable example_config (run example_config (reset_regs 0) (replicate 19 (write_request 7 v)))
   \<and> state (run example_config (reset_regs 0) (replicate 19 (write_request 7 v))) = WAIT_SEND_MORE
   \<and> unat (next_addr (run example_config (reset_regs 0) (replicate 19 (write_request 7 v)))) = 8"
  using write_transaction [OF construct_example, of "reset_regs 0"
      "replicate 19 (write_request 7 v)" 7]
    reachable_run [OF reachable_reset, of example_config 0 "replicate 19 (write_request 7 v)"]
  by (simp add: reset_regs_def)

lemma example_after_read:
  "reachable example_config (run example_config (reset_regs 0) (replicate 26 (read_request 7)))
   \<and> state (run example_config (reset_regs 0) (replicate 26 (read_request 7))) = WAIT_RECV_MORE
   \<and> unat (next_addr (run example_config (reset_regs 0) (replicate 26 (read_request 7)))) = 8"
  using read_transaction [OF construct_example, of "reset_regs 0"
      "replicate 26 (read_request 7)" 7]
    reachable_run [OF reachable_reset, of example_config 0 "replicate 26 (read_request 7)"]
  by (simp add: reset_regs_def)

section \<open>Cycle counts\<close>

text \<open>
  Claim C3. A write lasts, after the cycle in IDLE that accepts it, \<open>cmd_width / lanes\<close>
  cycles in SEND_CMD, \<open>addr_width / lanes\<close> cycles in SEND_ADDR and exactly
  \<open>wbone_width / (2 * lanes)\<close> cycles in SEND_DATA. The acknowledgment is asserted in the
  last cycle of SEND_DATA and in no other cycle of the transaction, and the machine is in
  WAIT_SEND_MORE afterwards. The same holds for a write that continues a burst: after the
  cycle in WAIT_SEND_MORE that accepts it, it is \<open>wbone_width / (2 * lanes)\<close> cycles in
  SEND_DATA, with the acknowledgment in the last one. The bus width is a parameter; the
  5-bit counter reaches the end of the data phase for widths from 8 to 263 bits.
\<close>

theorem write_data_phase:
  assumes "construct l1 l2 d w = Inr c" and "8 \<le> w" and "w < 264"
  shows "(state s = IDLE \<and> (\<forall>i \<in> set ins. request True a i)
      \<and> length ins = 1 + cmd_width c div spi_width c + addr_width c div spi_width c
          + wbone_width c div (2 * spi_width c)
      \<longrightarrow> trace c s ins =
          (IDLE, False) # replicate (cmd_width c div spi_width c) (SEND_CMD, False)
            @ replicate (addr_width c div spi_width c) (SEND_ADDR, False)
            @ replicate (wbone_width c div (2 * spi_width c) - 1) (SEND_DATA, False)
            @ [(SEND_DATA, True)]
        \<and> state (run c s ins) = WAIT_SEND_MORE)
    \<and> (reachable c s' \<and> state s' = WAIT_SEND_MORE
      \<and> (\<forall>i \<in> set ins'. request True (unat (next_addr s')) i)
      \<and> length ins' = 1 + wbone_width c div (2 * spi_width c)
      \<longrightarrow> trace c s' ins' =
          (WAIT_SEND_MORE, False)
            # replicate (wbone_width c div (2 * spi_width c) - 1) (SEND_DATA, False)
            @ [(SEND_DATA, True)]
        \<and> state (run c s' ins') = WAIT_SEND_MORE)"
proof -
  note c = construct_Inr [OF assms(1)]
  have widths: "cmd_width c div spi_width c = 8" "addr_width c div spi_width c = 6"
    "wbone_width c div (2 * spi_width c) = w div 8"
    by (simp_all add: c)
  show ?thesis
    unfolding widths
    using write_transaction [OF assms, of s ins a]
      continued_write [OF assms, of s' ins'] reachable_WAIT_counter [of c s']
    by auto
qed

theorem write_data_phase_witness:
  "construct 4 4 5 32 = Inr example_config
   \<and> state (reset_regs 0) = IDLE
   \<and> request True 7 (write_request 7 0x12345678)
   \<and> trace example_config (reset_regs 0) (replicate 19 (write_request 7 0x12345678)) =
       (IDLE, False) # replicate 8 (SEND_CMD, False) @ replicate 6 (SEND_ADDR, False)
         @ replicate 3 (SEND_DATA, False) @ [(SEND_DATA, True)]
   \<and> state (run example_config (reset_regs 0) (replicate 19 (write_request 7 0x12345678)))
       = WAIT_SEND_MORE
   \<and> reachable example_config
       (run example_config (reset_regs 0) (replicate 19 (write_request 7 0x12345678)))
   \<and> request True 8 (write_request 8 0xFFFFFFFF)
   \<and> trace example_config
       (run example_config (reset_regs 0) (replicate 19 (write_request 7 0x12345678)))
       (replicate 5 (write_request 8 0xFFFFFFFF)) =
       (WAIT_SEND_MORE, False) # replicate 3 (SEND_DATA, False) @ [(SEND_DATA, True)]"
  using write_data_phase [OF construct_example, of "reset_regs 0"
      "replicate 19 (write_request 7 0x12345678)" 7
      "run example_config (reset_regs 0) (replicate 19 (write_request 7 0x12345678))"
      "replicate 5 (write_request 8 0xFFFFFFFF)"]
    example_after_write [of "0x12345678"]
  by (simp add: construct_example example_config_def reset_regs_def)

text \<open>
  Claim C2, as the code has it. A read that does not continue a burst is
  \<open>cmd_width / lanes\<close> cycles in SEND_CMD and \<open>addr_width / lanes\<close> cycles in SEND_ADDR,
  then \<open>dummy + 1\<close> cycles in RECV_DATA_DUMMY (the state is left in the cycle in which the
  counter equals \<open>dummy\<close>, having started from 0) and \<open>wbone_width / (2 * lanes) + 1\<close>
  cycles in RECV_DATA, the last of which asserts the acknowledgment: by then the
  \<open>wbone_width / (2 * lanes)\<close> earlier cycles have shifted a whole bus word into the
  register. From entering SEND_CMD to the acknowledgment, that cycle included, these are
  \<open>cmd_width / lanes + addr_width / lanes + (dummy + 1) + (wbone_width / (2 * lanes) + 1)\<close>
  cycles. This holds for \<open>dummy\<close> up to 31 and bus widths below 256 bits.
\<close>

theorem read_transaction_cycles:
  assumes "construct l1 l2 d w = Inr c" and "d < 32" and "w < 256"
    and "state s = IDLE" and "\<forall>i \<in> set ins. request False a i"
    and "length ins = 1 + cmd_width c div spi_width c + addr_width c div spi_width c
          + (dummy c + 1) + (wbone_width c div (2 * spi_width c) + 1)"
  shows "trace c s ins =
      (IDLE, False) # replicate (cmd_width c div spi_width c) (SEND_CMD, False)
        @ replicate (addr_width c div spi_width c) (SEND_ADDR, False)
        @ replicate (dummy c + 1) (RECV_DATA_DUMMY, False)
        @ replicate (wbone_width c div (2 * spi_width c)) (RECV_DATA, False)
        @ [(RECV_DATA, True)]
    \<and> state (run c s ins) = WAIT_RECV_MORE"
proof -
  note c = construct_Inr [OF assms(1)]
  have widths: "cmd_width c div spi_width c = 8" "addr_width c div spi_width c = 6"
    "wbone_width c div (2 * spi_width c) = w div 8" "dummy c = d"
    by (simp_all add: c)
  show ?thesis
    using read_transaction [OF assms(1-5), of ] assms(6)
    unfolding widths by simp
qed

theorem read_transaction_cycles_witness:
  "construct 4 4 5 32 = Inr example_config
   \<and> state (reset_regs 0) = IDLE
   \<and> request False 7 (read_request 7)
   \<and> trace example_config (reset_regs 0) (replicate 26 (read_request 7)) =
       (IDLE, False) # replicate 8 (SEND_CMD, False) @ replicate 6 (SEND_ADDR, False)
         @ replicate 6 (RECV_DATA_DUMMY, False) @ replicate 4 (RECV_DATA, False)
         @ [(RECV_DATA, True)]
   \<and> state (run example_config (reset_regs 0) (replicate 26 (read_request 7)))
       = WAIT_RECV_MORE"
  using read_transaction_cycles [OF construct_example, of "reset_regs 0"
      "replicate 26 (read_request 7)" 7]
  by (simp add: construct_example example_config_def reset_regs_def)

text \<open>
  The claim as the specification words it fails for the example configuration
  (\<open>dummy = 5\<close>, 4 lanes, a 32-bit bus): a read from reset is 6 cycles in RECV_DATA_DUMMY
  and 5 cycles in RECV_DATA, and the 8 + 6 + 5 + 4 cycles that follow the cycle in IDLE
  contain no acknowledgment; it comes two cycles later.
\<close>

theorem read_cycles_counterexample:
  "dummy example_config = 5
   \<and> wbone_width example_config div (2 * spi_width example_config) = 4
   \<and> trace example_config (reset_regs 0) (replicate 26 (read_request 7)) =
       (IDLE, False) # replicate 8 (SEND_CMD, False) @ replicate 6 (SEND_ADDR, False)
         @ replicate 6 (RECV_DATA_DUMMY, False) @ replicate 4 (RECV_DATA, False)
         @ [(RECV_DATA, True)]
   \<and> trace example_config (reset_regs 0) (replicate (1 + (8 + 6 + 5 + 4)) (read_request 7)) =
       (IDLE, False) # replicate 8 (SEND_CMD, False) @ replicate 6 (SEND_ADDR, False)
         @ replicate 6 (RECV_DATA_DUMMY, False) @ replicate 3 (RECV_DATA, False)
   \<and> snd (last (trace example_config (reset_regs 0)
         (replicate (1 + (8 + 6 + 5 + 4)) (read_request 7)))) = False"
proof -
  let ?tr = "\<lambda>n. trace example_config (reset_regs 0) (replicate n (read_request 7))"
  have full: "?tr 26 =
       (IDLE, False) # replicate 8 (SEND_CMD, False) @ replicate 6 (SEND_ADDR, False)
         @ replicate 6 (RECV_DATA_DUMMY, False) @ replicate 4 (RECV_DATA, False)
         @ [(RECV_DATA, True)]"
    using read_transaction [OF construct_example, of "reset_regs 0"
      "replicate 26 (read_request 7)" 7]
    by (simp add: reset_regs_def)
  have "replicate 24 (read_request 7) = take 24 (replicate 26 (read_request 7))"
    by simp
  then have "?tr 24 = take 24 (?tr 26)"
    by (simp only: trace_take)
  then have "?tr 24 =
       (IDLE, False) # replicate 8 (SEND_CMD, False) @ replicate 6 (SEND_ADDR, False)
         @ replicate 6 (RECV_DATA_DUMMY, False) @ replicate 3 (RECV_DATA, False)"
    unfolding full by simp
  with full show ?thesis
    by (simp add: example_config_def)
qed

section \<open>Burst continuation\<close>

lemma adr_examples [simp]:
  "adr (read_request a) = a" "adr (write_request a v) = a"
  by (simp_all add: read_request_def write_request_def)

text \<open>
  Claim C1, as the code has it. In WAIT_SEND_MORE a pending write at \<open>next_addr\<close>, and in
  WAIT_RECV_MORE a pending read at \<open>next_addr\<close>, skips the command and address phases: the
  next state is SEND_DATA for the write and RECV_DATA for the read, entered directly, with
  no cycle in RECV_DATA_DUMMY; \<open>next_addr\<close> becomes the new address plus 1 (as a 32-bit
  value). From a wait state the machine has reached, the continued write is acknowledged in
  the last of \<open>wbone_width / (2 * lanes)\<close> cycles in SEND_DATA and the continued read in the
  last of \<open>wbone_width / (2 * lanes) + 1\<close> cycles in RECV_DATA.
\<close>

theorem burst_continuation:
  assumes "construct l1 l2 d w = Inr c" and "8 \<le> w" and "w < 256"
  shows "(state s = WAIT_SEND_MORE \<and> request True (unat (next_addr s)) i
      \<longrightarrow> state (step c s i) = SEND_DATA
        \<and> next_addr (step c s i) = word_of_nat (adr i + 1)
        \<and> \<not> ack (fsm_act c s i))
    \<and> (state s = WAIT_RECV_MORE \<and> request False (unat (next_addr s)) i
      \<longrightarrow> state (step c s i) = RECV_DATA
        \<and> next_addr (step c s i) = word_of_nat (adr i + 1)
        \<and> \<not> ack (fsm_act c s i))
    \<and> (reachable c s \<and> state s = WAIT_SEND_MORE
      \<and> (\<forall>j \<in> set ins. request True (unat (next_addr s)) j)
      \<and> length ins = 1 + wbone_width c div (2 * spi_width c)
      \<longrightarrow> trace c s ins =
          (WAIT_SEND_MORE, False)
            # replicate (wbone_width c div (2 * spi_width c) - 1) (SEND_DATA, False)
            @ [(SEND_DATA, True)])
    \<and> (reachable c s \<and> state s = WAIT_RECV_MORE
      \<and> (\<forall>j \<in> set ins. request False (unat (next_addr s)) j)
      \<and> length ins = 1 + (wbone_width c div (2 * spi_width c) + 1)
      \<longrightarrow> trace c s ins =
          (WAIT_RECV_MORE, False)
            # replicate (wbone_width c div (2 * spi_width c)) (RECV_DATA, False)
            @ [(RECV_DATA, True)])"
proof -
  note c = construct_Inr [OF assms(1)]
  have widths: "wbone_width c div (2 * spi_width c) = w div 8"
    by (simp add: c)
  have "w < 264" using assms(3) by simp
  note cw = continued_write [OF assms(1,2) this, of s ins]
  note cr = continued_read [OF assms(1,3), of s ins]
  show ?thesis
    unfolding widths
    using step_WAIT_SEND_MORE [of s c i] step_WAIT_RECV_MORE [of s c i]
      cw cr reachable_WAIT_counter [of c s]
    by (auto simp: request_def)
qed

theorem burst_continuation_witness:
  "construct 4 4 5 32 = Inr example_config
   \<and> reachable example_config
       (run example_config (reset_regs 0) (replicate 19 (write_request 7 0x12345678)))
   \<and> state (run example_config (reset_regs 0) (replicate 19 (write_request 7 0x12345678)))
       = WAIT_SEND_MORE
   \<and> state (step example_config
       (run example_config (reset_regs 0) (replicate 19 (write_request 7 0x12345678)))
       (write_request 8 1)) = SEND_DATA
   \<and> next_addr (step example_config
       (run example_config (reset_regs 0) (replicate 19 (write_request 7 0x12345678)))
       (write_request 8 1)) = 9
   \<and> trace example_config
       (run example_config (reset_regs 0) (replicate 19 (write_request 7 0x12345678)))
       (replicate 5 (write_request 8 1)) =
       (WAIT_SEND_MORE, False) # replicate 3 (SEND_DATA, False) @ [(SEND_DATA, True)]
   \<and> reachable example_config
       (run example_config (reset_regs 0) (replicate 26 (read_request 7)))
   \<and> state (run example_config (reset_regs 0) (replicate 26 (read_request 7)))
       = WAIT_RECV_MORE
   \<and> state (step example_config
       (run example_config (reset_regs 0) (replicate 26 (read_request 7)))
       (read_request 8)) = RECV_DATA
   \<and> trace example_config
       (run example_config (reset_regs 0) (replicate 26 (read_request 7)))
       (replicate 6 (read_request 8)) =
       (WAIT_RECV_MORE, False) # replicate 4 (RECV_DATA, False) @ [(RECV_DATA, True)]"
  using burst_continuation [OF construct_example, of
      "run example_config (reset_regs 0) (replicate 19 (write_request 7 0x12345678))"
      "write_request 8 1" "replicate 5 (write_request 8 1)"]
    burst_continuation [OF construct_example, of
      "run example_config (reset_regs 0) (replicate 26 (read_request 7))"
      "read_request 8" "replicate 6 (read_request 8)"]
    example_after_write [of "0x12345678"] example_after_read
  by (simp add: construct_cases example_config_def)

text \<open>
  The claim as the specification words it has the continued read go through a fresh dummy
  window. After a read at address 7, a read at address 8 goes from WAIT_RECV_MORE straight
  to RECV_DATA and is acknowledged five cycles later without any cycle in RECV_DATA_DUMMY.
\<close>

theorem continued_read_has_no_dummy_window:
  "state (run example_config (reset_regs 0) (replicate 26 (read_request 7))) = WAIT_RECV_MORE
   \<and> request False
       (unat (next_addr (run example_config (reset_regs 0) (replicate 26 (read_request 7)))))
       (read_request 8)
   \<and> state (step example_config
       (run example_config (reset_regs 0) (replicate 26 (read_request 7)))
       (read_request 8)) = RECV_DATA
   \<and> state (step example_config
       (run example_config (reset_regs 0) (replicate 26 (read_request 7)))
       (read_request 8)) \<noteq> RECV_DATA_DUMMY
   \<and> trace example_config
       (run example_config (reset_regs 0) (replicate 26 (read_request 7)))
       (replicate 6 (read_request 8)) =
       (WAIT_RECV_MORE, False) # replicate 4 (RECV_DATA, False) @ [(RECV_DATA, True)]"
proof -
  let ?s = "run example_config (reset_regs 0) (replicate 26 (read_request 7))"
  note ex = example_after_read
  have cc: "cycle_counter ?s = 0"
    using reachable_WAIT_counter [of example_config ?s] ex by simp
  have "\<forall>j \<in> set (replicate 6 (read_request 8)). request False (unat (next_addr ?s)) j"
    using ex by simp
  from continued_read [OF construct_example _ _ cc this] ex
  have tr: "trace example_config ?s (replicate 6 (read_request 8)) =
       (WAIT_RECV_MORE, False) # replicate 4 (RECV_DATA, False) @ [(RECV_DATA, True)]"
    by simp
  have "state (step example_config ?s (read_request 8)) = RECV_DATA"
    using step_WAIT_RECV_MORE [of ?s example_config "read_request 8"] ex
      request_examples(1) [of 8]
    by (simp add: request_def)
  with tr ex show ?thesis by simp
qed

text \<open>
  Claim C6. In a wait state a pending request of the other direction, or at another address
  than \<open>next_addr\<close>, sends the machine to IDLE without an acknowledgment. From there the
  request, which the bus keeps pending, runs the whole sequence: the trace that follows
  the cycle in the wait state is the trace of the same request from reset, with
  \<open>cmd_width / lanes\<close> cycles in SEND_CMD and \<open>addr_width / lanes\<close> cycles in SEND_ADDR
  before the data phase. A write that follows a read, whatever its address, is such a
  request.
\<close>

theorem mismatch_restarts_from_IDLE:
  assumes "construct l1 l2 d w = Inr c" and "8 \<le> w" and "w < 256" and "d < 32"
  shows "(state s = WAIT_SEND_MORE \<and> cyc i \<and> stb i
        \<and> (we i = False \<or> adr i \<noteq> unat (next_addr s))
      \<longrightarrow> state (step c s i) = IDLE \<and> \<not> ack (fsm_act c s i))
    \<and> (state s = WAIT_RECV_MORE \<and> cyc i \<and> stb i
        \<and> (we i = True \<or> adr i \<noteq> unat (next_addr s))
      \<longrightarrow> state (step c s i) = IDLE \<and> \<not> ack (fsm_act c s i))
    \<and> ((state s = WAIT_SEND_MORE \<and> a \<noteq> unat (next_addr s) \<or> state s = WAIT_RECV_MORE)
        \<and> (\<forall>j \<in> set (i # ins). request True a j)
        \<and> length ins = 1 + cmd_width c div spi_width c + addr_width c div spi_width c
            + wbone_width c div (2 * spi_width c)
      \<longrightarrow> trace c s (i # ins) = (state s, False) # trace c (reset_regs cc) ins
        \<and> trace c (reset_regs cc) ins =
          (IDLE, False) # replicate (cmd_width c div spi_width c) (SEND_CMD, False)
            @ replicate (addr_width c div spi_width c) (SEND_ADDR, False)
            @ replicate (wbone_width c div (2 * spi_width c) - 1) (SEND_DATA, False)
            @ [(SEND_DATA, True)])
    \<and> ((state s = WAIT_RECV_MORE \<and> a \<noteq> unat (next_addr s) \<or> state s = WAIT_SEND_MORE)
        \<and> (\<forall>j \<in> set (i # ins). request False a j)
        \<and> length ins = 1 + cmd_width c div spi_width c + addr_width c div spi_width c
            + (dummy c + 1) + (wbone_width c div (2 * spi_width c) + 1)
      \<longrightarrow> trace c s (i # ins) = (state s, False) # trace c (reset_regs cc) ins
        \<and> trace c (reset_regs cc) ins =
          (IDLE, False) # replicate (cmd_width c div spi_width c) (SEND_CMD, False)
            @ replicate (addr_width c div spi_width c) (SEND_ADDR, False)
            @ replicate (dummy c + 1) (RECV_DATA_DUMMY, False)
            @ replicate (wbone_width c div (2 * spi_width c)) (RECV_DATA, False)
            @ [(RECV_DATA, True)])"
proof -
  note c = construct_Inr [OF assms(1)]
  have widths: "cmd_width c div spi_width c = 8" "addr_width c div spi_width c = 6"
    "wbone_width c div (2 * spi_width c) = w div 8" "dummy c = d"
    by (simp_all add: c)
  have w264: "w < 264" using assms(3) by simp
  have idle: "state (reset_regs cc) = IDLE" by (simp add: reset_regs_def)
  note ws = step_WAIT_SEND_MORE [of s c i]
  note wr = step_WAIT_RECV_MORE [of s c i]
  have A: "state s = WAIT_SEND_MORE \<and> cyc i \<and> stb i
        \<and> (we i = False \<or> adr i \<noteq> unat (next_addr s))
      \<longrightarrow> state (step c s i) = IDLE \<and> \<not> ack (fsm_act c s i)"
    using ws by auto
  have B: "state s = WAIT_RECV_MORE \<and> cyc i \<and> stb i
        \<and> (we i = True \<or> adr i \<noteq> unat (next_addr s))
      \<longrightarrow> state (step c s i) = IDLE \<and> \<not> ack (fsm_act c s i)"
    using wr by auto
  have C: "(state s = WAIT_SEND_MORE \<and> a \<noteq> unat (next_addr s) \<or> state s = WAIT_RECV_MORE)
        \<and> (\<forall>j \<in> set (i # ins). request True a j)
        \<and> length ins = 1 + 8 + 6 + w div 8
      \<longrightarrow> trace c s (i # ins) = (state s, False) # trace c (reset_regs cc) ins
        \<and> trace c (reset_regs cc) ins =
          (IDLE, False) # replicate 8 (SEND_CMD, False) @ replicate 6 (SEND_ADDR, False)
            @ replicate (w div 8 - 1) (SEND_DATA, False) @ [(SEND_DATA, True)]"
  proof (intro impI, elim conjE)
    assume m: "state s = WAIT_SEND_MORE \<and> a \<noteq> unat (next_addr s) \<or> state s = WAIT_RECV_MORE"
      and held: "\<forall>j \<in> set (i # ins). request True a j"
      and len: "length ins = 1 + 8 + 6 + w div 8"
    from held have i: "cyc i" "stb i" "we i" "adr i = a" and rest: "\<forall>j \<in> set ins. request True a j"
      by (simp_all add: request_def)
    from m i A B have s1: "state (step c s i) = IDLE" "\<not> ack (fsm_act c s i)"
      by auto
    note t1 = write_transaction [OF assms(1,2) w264 s1(1) rest len]
    note t2 = write_transaction [OF assms(1,2) w264 idle rest len]
    have "trace c (step c s i) ins = trace c (reset_regs cc) ins"
      using t1 t2 by simp
    with s1(2) t2
    show "trace c s (i # ins) = (state s, False) # trace c (reset_regs cc) ins
        \<and> trace c (reset_regs cc) ins =
          (IDLE, False) # replicate 8 (SEND_CMD, False) @ replicate 6 (SEND_ADDR, False)
            @ replicate (w div 8 - 1) (SEND_DATA, False) @ [(SEND_DATA, True)]"
      by simp
  qed
  have D: "(state s = WAIT_RECV_MORE \<and> a \<noteq> unat (next_addr s) \<or> state s = WAIT_SEND_MORE)
        \<and> (\<forall>j \<in> set (i # ins). request False a j)
        \<and> length ins = 1 + 8 + 6 + (d + 1) + (w div 8 + 1)
      \<longrightarrow> trace c s (i # ins) = (state s, False) # trace c (reset_regs cc) ins
        \<and> trace c (reset_regs cc) ins =
          (IDLE, False) # replicate 8 (SEND_CMD, False) @ replicate 6 (SEND_ADDR, False)
            @ replicate (d + 1) (RECV_DATA_DUMMY, False)
            @ replicate (w div 8) (RECV_DATA, False) @ [(RECV_DATA, True)]"
  proof (intro impI, elim conjE)
    assume m: "state s = WAIT_RECV_MORE \<and> a \<noteq> unat (next_addr s) \<or> state s = WAIT_SEND_MORE"
      and held: "\<forall>j \<in> set (i # ins). request False a j"
      and len: "length ins = 1 + 8 + 6 + (d + 1) + (w div 8 + 1)"
    from held have i: "cyc i" "stb i" "\<not> we i" "adr i = a"
      and rest: "\<forall>j \<in> set ins. request False a j"
      by (simp_all add: request_def)
    from m i A B have s1: "state (step c s i) = IDLE" "\<not> ack (fsm_act c s i)"
      by auto
    note t1 = read_transaction [OF assms(1,4,3) s1(1) rest len]
    note t2 = read_transaction [OF assms(1,4,3) idle rest len]
    have "trace c (step c s i) ins = trace c (reset_regs cc) ins"
      using t1 t2 by simp
    with s1(2) t2
    show "trace c s (i # ins) = (state s, False) # trace c (reset_regs cc) ins
        \<and> trace c (reset_regs cc) ins =
          (IDLE, False) # replicate 8 (SEND_CMD, False) @ replicate 6 (SEND_ADDR, False)
            @ replicate (d + 1) (RECV_DATA_DUMMY, False)
            @ replicate (w div 8) (RECV_DATA, False) @ [(RECV_DATA, True)]"
      by simp
  qed
  show ?thesis
    unfolding widths by (rule conjI [OF A conjI [OF B conjI [OF C D]]])
qed

theorem mismatch_restarts_from_IDLE_witness:
  "construct 4 4 5 32 = Inr example_config
   \<and> state (run example_config (reset_regs 0) (replicate 26 (read_request 7))) = WAIT_RECV_MORE
   \<and> unat (next_addr (run example_config (reset_regs 0) (replicate 26 (read_request 7)))) = 8
   \<and> request True 8 (write_request 8 1)
   \<and> state (step example_config
       (run example_config (reset_regs 0) (replicate 26 (read_request 7)))
       (write_request 8 1)) = IDLE
   \<and> trace example_config
       (run example_config (reset_regs 0) (replicate 26 (read_request 7)))
       (write_request 8 1 # replicate 19 (write_request 8 1)) =
       (WAIT_RECV_MORE, False) # trace example_config (reset_regs 0) (replicate 19 (write_request 8 1))
   \<and> trace example_config (reset_regs 0) (replicate 19 (write_request 8 1)) =
       (IDLE, False) # replicate 8 (SEND_CMD, False) @ replicate 6 (SEND_ADDR, False)
         @ replicate 3 (SEND_DATA, False) @ [(SEND_DATA, True)]"
  using mismatch_restarts_from_IDLE [OF construct_example, of
      "run example_config (reset_regs 0) (replicate 26 (read_request 7))"
      "write_request 8 1" 8 "replicate 19 (write_request 8 1)" 0]
    example_after_read request_examples(2) [of 8 1]
  by (simp add: construct_cases example_config_def request_def)

section \<open>The width of the cycle counter\<close>

lemma dummy_stuck:
  assumes "32 \<le> dummy c" and "state s = RECV_DATA_DUMMY"
  shows "state (run c s ins) = RECV_DATA_DUMMY
    \<and> trace c s ins = replicate (length ins) (RECV_DATA_DUMMY, False)"
  using assms(2)
proof (induction ins arbitrary: s)
  case Nil
  then show ?case by simp
next
  case (Cons i ins)
  have "unat (cycle_counter s) < 2 ^ LENGTH(5)"
    by (rule unsigned_less)
  with assms(1) have "unat (cycle_counter s) \<noteq> dummy c" by simp
  from stay_RECV_DATA_DUMMY [OF Cons.prems this, of i]
  have "state (step c s i) = RECV_DATA_DUMMY" "\<not> ack (fsm_act c s i)" by simp_all
  with Cons.IH [of "step c s i"] Cons.prems show ?case by simp
qed

text \<open>
  Claim C10. The cycle counter has 5 bits, so its value is below 32 and never equals a
  \<open>dummy\<close> of 32 or more. The machine then stays in RECV_DATA_DUMMY for ever, whatever the
  inputs, and does not acknowledge; a read accepted in IDLE reaches that state after 15
  cycles and is never acknowledged.
\<close>

theorem dummy_phase_never_ends:
  assumes "construct l1 l2 d w = Inr c" and "32 \<le> d"
  shows "unat (cycle_counter s) < 2 ^ 5
    \<and> unat (cycle_counter s) \<noteq> dummy c
    \<and> (state s = RECV_DATA_DUMMY
      \<longrightarrow> state (run c s ins) = RECV_DATA_DUMMY
        \<and> trace c s ins = replicate (length ins) (RECV_DATA_DUMMY, False))
    \<and> (state s = IDLE \<and> (\<forall>j \<in> set ins. request False a j) \<and> 15 \<le> length ins
      \<longrightarrow> state (run c s ins) = RECV_DATA_DUMMY
        \<and> map snd (trace c s ins) = replicate (length ins) False)"
proof -
  note c = construct_Inr [OF assms(1)]
  have d: "32 \<le> dummy c" using assms(2) by (simp add: c)
  have cc: "unat (cycle_counter s) < 2 ^ LENGTH(5)"
    by (rule unsigned_less)
  have R: "state (run c s ins) = RECV_DATA_DUMMY
        \<and> map snd (trace c s ins) = replicate (length ins) False"
    if idle: "state s = IDLE" and held: "\<forall>j \<in> set ins. request False a j"
      and len: "15 \<le> length ins"
  proof -
    from len have "length ins = (1 + 8 + 6) + (length ins - 15)" by simp
    from split_length [OF this] obtain p q where ins: "ins = p @ q"
      and lp: "length p = 1 + 8 + 6" by blast
    have "\<forall>j \<in> set p. request False a j"
      using held ins by simp
    note ca = command_address [OF assms(1) idle this lp]
    then have "state (run c s p) = RECV_DATA_DUMMY" by simp
    note st = dummy_stuck [OF d this, of q]
    have "\<forall>b \<in> set (map snd (trace c s ins)). b = False"
      unfolding ins trace_append using ca st by auto
    then have "replicate (length (map snd (trace c s ins))) False = map snd (trace c s ins)"
      by (rule replicate_length_same)
    then have "map snd (trace c s ins) = replicate (length ins) False"
      by (simp add: length_trace)
    moreover have "state (run c s ins) = RECV_DATA_DUMMY"
      unfolding ins run_append using st by simp
    ultimately show ?thesis by simp
  qed
  show ?thesis
    using cc d dummy_stuck [OF d, of s ins] R by auto
qed

theorem dummy_phase_never_ends_witness:
  "construct 4 4 32 32 = Inr (example_config\<lparr>dummy := 32\<rparr>)
   \<and> (32::nat) \<le> 32
   \<and> state (reset_regs 0) = IDLE
   \<and> request False 7 (read_request 7)
   \<and> state (run (example_config\<lparr>dummy := 32\<rparr>) (reset_regs 0) (replicate 1000 (read_request 7)))
       = RECV_DATA_DUMMY
   \<and> map snd (trace (example_config\<lparr>dummy := 32\<rparr>) (reset_regs 0)
       (replicate 1000 (read_request 7))) = replicate 1000 False"
  using dummy_phase_never_ends [of 4 4 32 32 "example_config\<lparr>dummy := 32\<rparr>" "reset_regs 0"
      "replicate 1000 (read_request 7)" 7]
  by (simp add: construct_cases example_config_def reset_regs_def)

section \<open>What the chips are driven with\<close>

lemma dat_w_write_request: "dat_w (write_request a v) = v"
  by (simp add: write_request_def)

lemma bit_slice_eq: "bit_slice v lo hi = take_bit (hi - lo) (drop_bit lo v)"
  by (simp add: bit_slice_def take_bit_eq_mod drop_bit_eq_div)

lemma bit_slice_mod:
  assumes "hi \<le> W"
  shows "bit_slice (v mod 2 ^ W) lo hi = bit_slice v lo hi"
  unfolding bit_slice_eq take_bit_eq_mod [symmetric]
  using assms by (intro bit_eqI) (auto simp: bit_take_bit_iff bit_drop_bit_eq)

lemma bit_slice_shift:
  assumes "n \<le> lo"
  shows "bit_slice (v * 2 ^ n) lo hi = bit_slice v (lo - n) (hi - n)"
proof -
  have "v * 2 ^ n = push_bit n v" by (simp add: push_bit_eq_mult)
  then show ?thesis
    unfolding bit_slice_eq
    using assms by (intro bit_eqI) (auto simp: bit_take_bit_iff bit_drop_bit_eq bit_push_bit_iff)
qed

lemma bit_slice_shift_mod:
  assumes "n \<le> lo" and "hi \<le> W"
  shows "bit_slice ((v * 2 ^ n) mod 2 ^ W) lo hi = bit_slice v (lo - n) (hi - n)"
  using assms by (simp add: bit_slice_mod bit_slice_shift)

lemma signals_by_state:
  "dq_oe (fsm_act c s i) \<longleftrightarrow> state s = SEND_CMD \<or> state s = SEND_ADDR \<or> state s = SEND_DATA"
  "gang_outputs (fsm_act c s i) \<longleftrightarrow> state s = SEND_CMD \<or> state s = SEND_ADDR"
  by (cases "state s";
      simp add: fsm_act_def comb_reset_def Let_def act_IDLE_def act_SEND_CMD_def
        act_SEND_ADDR_def act_SEND_DATA_def act_RECV_DATA_DUMMY_def act_RECV_DATA_def
        act_WAIT_SEND_MORE_def act_WAIT_RECV_MORE_def)+

lemma sr_SEND_DATA:
  assumes "state s = SEND_DATA"
  shows "sr (step c s i) =
    (sr s * 2 ^ nat (int (cmd_width c) - int (wbone_width c) + int (spi_width c * 2)))
      mod 2 ^ sr_width c"
  using assms by (simp add: step_simps act_SEND_DATA_def cat_zeros_def Let_def)

text \<open>
  What the chips are driven with during the data phase of a write on the 32-bit bus:
  in cycle \<open>k\<close> of the phase, chip 1 gets bits \<open>28 - 8 k\<close> to \<open>31 - 8 k\<close> and chip 2
  bits \<open>24 - 8 k\<close> to \<open>27 - 8 k\<close> of what the shift register held when the phase began.
\<close>

lemma dq_SEND_DATA:
  assumes c: "spi_width c = 4" "cmd_width c = 32" "addr_width c = 24" "wbone_width c = 32"
    and "state s = SEND_DATA"
  shows "dq1_o c s = bit_slice (sr s) 28 32" and "dq2_o c s i = bit_slice (sr s) 24 28"
  using assms by (simp_all add: dq1_o_def dq2_o_def signals_by_state sr_width_def)

lemma dq_trace_SEND_DATA:
  assumes c: "spi_width c = 4" "cmd_width c = 32" "addr_width c = 24" "wbone_width c = 32"
    and "state s = SEND_DATA" and "unat (cycle_counter s) + length ins \<le> 4"
  shows "dq_trace c s ins =
    map (\<lambda>k. (bit_slice (sr s) (28 - 8 * k) (32 - 8 * k), bit_slice (sr s) (24 - 8 * k) (28 - 8 * k)))
      [0..<length ins]"
  using assms(5-)
proof (induction ins arbitrary: s)
  case Nil
  show ?case by simp
next
  case (Cons i ins)
  let ?s' = "step c s i"
  let ?f = "\<lambda>v k. (bit_slice v (28 - 8 * k) (32 - 8 * k), bit_slice v (24 - 8 * k) (28 - 8 * k))"
  have hd: "(dq1_o c s, dq2_o c s i) = ?f (sr s) 0"
    using dq_SEND_DATA [OF c Cons.prems(1)] by simp
  have tl: "dq_trace c ?s' ins = map (\<lambda>k. ?f (sr s) (Suc k)) [0..<length ins]"
  proof (cases "ins = []")
    case True
    then show ?thesis by simp
  next
    case False
    then have small: "unat (cycle_counter s) < 3"
      using Cons.prems(2) by (cases ins) simp_all
    then have ne: "int (unat (cycle_counter s)) \<noteq> int (wbone_width c div spi_width c div 2) - 1"
      by (simp add: c del: of_nat_unat)
    from stay_SEND_DATA [OF Cons.prems(1) ne, of i]
    have st: "state ?s' = SEND_DATA" "cycle_counter ?s' = cycle_counter s + 1" by simp_all
    from small have "unat (cycle_counter s + 1) = unat (cycle_counter s) + 1"
      by (simp add: unat_word_ariths)
    with st Cons.prems(2) have "unat (cycle_counter ?s') + length ins \<le> 4" by simp
    note IH = Cons.IH [OF st(1) this]
    have sr': "sr ?s' = (sr s * 2 ^ 8) mod 2 ^ 32"
      using sr_SEND_DATA [OF Cons.prems(1), of c i] by (simp add: c sr_width_def)
    have "?f (sr ?s') k = ?f (sr s) (Suc k)" if "k < length ins" for k
    proof -
      from that Cons.prems(2) have k: "k < 3" by simp
      then have "8 \<le> 28 - 8 * k" "8 \<le> 24 - 8 * k" "32 - 8 * k \<le> 32" "28 - 8 * k \<le> 32"
        by simp_all
      then show ?thesis
        unfolding sr'
        using bit_slice_shift_mod [of 8 "28 - 8 * k" "32 - 8 * k" 32 "sr s"]
          bit_slice_shift_mod [of 8 "24 - 8 * k" "28 - 8 * k" 32 "sr s"]
        by simp
    qed
    then have "map (?f (sr ?s')) [0..<length ins] = map (\<lambda>k. ?f (sr s) (Suc k)) [0..<length ins]"
      by (intro map_cong) simp_all
    with IH show ?thesis by simp
  qed
  show ?case
    using hd tl by (simp add: map_upt_Suc del: upt_Suc)
qed

lemma cold_write_data:
  assumes cfg: "construct l1 l2 d 32 = Inr c"
    and idle: "state s = IDLE"
    and held: "\<forall>j \<in> set ins. request True a j"
    and len: "length ins = 1 + 8 + 6" "length ds \<le> 4"
  shows "dq_trace c (run c s ins) ds =
    map (\<lambda>k. (bit_slice (dat_w (last ins)) (28 - 8 * k) (32 - 8 * k),
               bit_slice (dat_w (last ins)) (24 - 8 * k) (28 - 8 * k))) [0..<length ds]"
proof -
  note c = construct_Inr [OF cfg]
  have cw: "spi_width c = 4" "cmd_width c = 32" "addr_width c = 24" "wbone_width c = 32"
    by (simp_all add: c)
  note ca = command_address [OF cfg idle held len(1)]
  let ?s = "run c s ins"
  have st: "state ?s = SEND_DATA" "unat (cycle_counter ?s) + length ds \<le> 4"
    and sr: "sr ?s = dat_w (last ins) mod 2 ^ 32"
    using ca len(2) by (simp_all add: cw sr_width_def)
  have "bit_slice (dat_w (last ins) mod 2 ^ 32) (28 - 8 * k) (32 - 8 * k)
      = bit_slice (dat_w (last ins)) (28 - 8 * k) (32 - 8 * k)"
    and "bit_slice (dat_w (last ins) mod 2 ^ 32) (24 - 8 * k) (28 - 8 * k)
      = bit_slice (dat_w (last ins)) (24 - 8 * k) (28 - 8 * k)" for k
    by (simp_all only: bit_slice_mod diff_le_self le_diff_conv trans_le_add1 [OF order_refl])
  then show ?thesis
    unfolding dq_trace_SEND_DATA [OF cw st] sr by simp
qed

lemma step_into_SEND_DATA:
  assumes "state (step c s i) = SEND_DATA"
  shows "state s = SEND_ADDR \<or> state s = SEND_DATA \<or> state s = WAIT_SEND_MORE"
proof (cases "state s")
  case IDLE
  with assms show ?thesis by (simp add: step_simps act_IDLE_def Let_def split: if_splits)
next
  case SEND_CMD
  with assms show ?thesis by (simp add: step_simps act_SEND_CMD_def Let_def split: if_splits)
next
  case RECV_DATA_DUMMY
  with assms show ?thesis
    by (simp add: step_simps act_RECV_DATA_DUMMY_def Let_def split: if_splits)
next
  case RECV_DATA
  with assms show ?thesis by (simp add: step_simps act_RECV_DATA_def Let_def split: if_splits)
next
  case WAIT_RECV_MORE
  with assms step_WAIT_RECV_MORE [OF WAIT_RECV_MORE, of c i] show ?thesis
    by (auto split: if_splits)
qed simp_all

lemma step_into_WAIT_SEND_MORE:
  assumes "state (step c s i) = WAIT_SEND_MORE"
  shows "state s = SEND_DATA \<or> state s = WAIT_SEND_MORE"
proof (cases "state s")
  case IDLE
  with assms show ?thesis by (simp add: step_simps act_IDLE_def Let_def split: if_splits)
next
  case SEND_CMD
  with assms show ?thesis by (simp add: step_simps act_SEND_CMD_def Let_def split: if_splits)
next
  case SEND_ADDR
  with assms show ?thesis by (simp add: step_simps act_SEND_ADDR_def Let_def split: if_splits)
next
  case RECV_DATA_DUMMY
  with assms show ?thesis
    by (simp add: step_simps act_RECV_DATA_DUMMY_def Let_def split: if_splits)
next
  case RECV_DATA
  with assms show ?thesis by (simp add: step_simps act_RECV_DATA_def Let_def split: if_splits)
next
  case WAIT_RECV_MORE
  with assms step_WAIT_RECV_MORE [OF WAIT_RECV_MORE, of c i] show ?thesis
    by (auto split: if_splits)
qed simp_all

lemma shift_dvd:
  assumes "2 ^ (8 * k) dvd (v::nat)" and "k < 4"
  shows "2 ^ (8 * Suc k) dvd (v * 2 ^ 8) mod 2 ^ 32"
proof -
  have "(2::nat) ^ (8 * Suc k) = 2 ^ (8 * k) * 2 ^ 8" by (simp add: power_add)
  with assms(1) have a: "2 ^ (8 * Suc k) dvd v * 2 ^ 8" by (simp add: mult_dvd_mono)
  have "8 * Suc k \<le> 32" using assms(2) by simp
  then have "(2::nat) ^ (8 * Suc k) dvd 2 ^ 32" by (rule le_imp_power_dvd)
  with a show ?thesis by (simp add: dvd_mod)
qed

text \<open>After a write the shift register is empty: the data phase has shifted all of it out.\<close>

lemma reachable_write_residue:
  assumes cfg: "construct l1 l2 d 32 = Inr c" and "reachable c s"
  shows "(state s = SEND_DATA \<longrightarrow>
      unat (cycle_counter s) \<le> 3 \<and> 2 ^ (8 * unat (cycle_counter s)) dvd sr s)
    \<and> (state s = WAIT_SEND_MORE \<longrightarrow> sr s = 0)"
  using assms(2)
proof (induction rule: reachable.induct)
  case (reachable_reset cc)
  show ?case by (simp add: reset_regs_def)
next
  case (reachable_step s i)
  note c = construct_Inr [OF cfg]
  have cw: "spi_width c = 4" "cmd_width c = 32" "addr_width c = 24" "wbone_width c = 32"
    "sr_width c = 32"
    by (simp_all add: c sr_width_def)
  let ?s' = "step c s i"
  have D: "unat (cycle_counter ?s') \<le> 3 \<and> 2 ^ (8 * unat (cycle_counter ?s')) dvd sr ?s'"
    if s': "state ?s' = SEND_DATA"
  proof -
    from step_into_SEND_DATA [OF s']
    consider "state s = SEND_ADDR" | "state s = SEND_DATA" | "state s = WAIT_SEND_MORE" by blast
    then show ?thesis
    proof cases
      case 1
      with s' have "cycle_counter ?s' = 0"
        by (simp add: step_simps act_SEND_ADDR_def Let_def split: if_splits)
      then show ?thesis by simp
    next
      case 2
      with reachable_step.IH have k: "unat (cycle_counter s) \<le> 3"
        and dv: "2 ^ (8 * unat (cycle_counter s)) dvd sr s" by simp_all
      have ne: "int (unat (cycle_counter s)) \<noteq> int (wbone_width c div spi_width c div 2) - 1"
        using s' 2 exit_SEND_DATA [OF 2, of c i] by auto
      then have k2: "unat (cycle_counter s) < 3"
        using k by (simp add: cw del: of_nat_unat)
      from stay_SEND_DATA [OF 2 ne, of i]
      have cc': "cycle_counter ?s' = cycle_counter s + 1" by simp
      from k2 have inc: "unat (cycle_counter s + 1) = Suc (unat (cycle_counter s))"
        by (simp add: unat_word_ariths)
      have sr': "sr ?s' = (sr s * 2 ^ 8) mod 2 ^ 32"
        using sr_SEND_DATA [OF 2, of c i] by (simp add: cw)
      from shift_dvd [OF dv] k2 show ?thesis
        unfolding cc' inc sr' by simp
    next
      case 3
      with reachable_WAIT_counter [OF reachable_step.hyps] reachable_step.IH
      have "cycle_counter s = 0" "sr s = 0" by simp_all
      with step_WAIT_SEND_MORE [OF 3, of c i] show ?thesis by simp
    qed
  qed
  have W: "sr ?s' = 0" if s': "state ?s' = WAIT_SEND_MORE"
  proof -
    from step_into_WAIT_SEND_MORE [OF s']
    consider "state s = SEND_DATA" | "state s = WAIT_SEND_MORE" by blast
    then show ?thesis
    proof cases
      case 1
      with reachable_step.IH have k: "unat (cycle_counter s) \<le> 3"
        and dv: "2 ^ (8 * unat (cycle_counter s)) dvd sr s" by simp_all
      have "int (unat (cycle_counter s)) = int (wbone_width c div spi_width c div 2) - 1"
        using s' 1 stay_SEND_DATA [OF 1, of c i] by auto
      then have "unat (cycle_counter s) = 3"
        by (simp add: cw del: of_nat_unat)
      with shift_dvd [OF dv] have "2 ^ 32 dvd (sr s * 2 ^ 8) mod 2 ^ (32::nat)"
        by simp
      then have "(sr s * 2 ^ 8) mod 2 ^ (32::nat) = 0"
        by (metis dvd_imp_mod_0 mod_mod_trivial)
      then show ?thesis
        using sr_SEND_DATA [OF 1, of c i] by (simp add: cw)
    next
      case 2
      with reachable_step.IH have "sr s = 0" by simp
      with step_WAIT_SEND_MORE [OF 2, of c i] show ?thesis by simp
    qed
  qed
  show ?case using D W by blast
qed

text \<open>
  Claim C7. The outputs are enabled in SEND_CMD, SEND_ADDR and SEND_DATA. Chip 1 is always
  driven with the top \<open>spi_width\<close> bits of the shift register; chip 2 is driven with the
  same bits when \<open>gang_outputs\<close> is set, which it is in SEND_CMD and SEND_ADDR and in no
  other state, and with the \<open>spi_width\<close> bits below them otherwise. In the data phase of a
  write on the 32-bit bus the two chips so get different halves of the data word: in
  cycle \<open>k\<close> chip 1 gets its bits \<open>28 - 8 k\<close> to \<open>31 - 8 k\<close> and chip 2 its bits
  \<open>24 - 8 k\<close> to \<open>27 - 8 k\<close>.
\<close>

theorem lane_outputs:
  assumes "construct l1 l2 d 32 = Inr c"
  shows "(dq_oe (fsm_act c s i) \<longleftrightarrow>
        state s = SEND_CMD \<or> state s = SEND_ADDR \<or> state s = SEND_DATA)
    \<and> (gang_outputs (fsm_act c s i) \<longleftrightarrow> state s = SEND_CMD \<or> state s = SEND_ADDR)
    \<and> sr_width c = 32 \<and> spi_width c = 4
    \<and> dq1_o c s = bit_slice (sr s) (sr_width c - spi_width c) (sr_width c)
    \<and> dq2_o c s i =
        (if gang_outputs (fsm_act c s i) then dq1_o c s
         else bit_slice (sr s) (sr_width c - 2 * spi_width c) (sr_width c - spi_width c))
    \<and> (state s = IDLE \<and> (\<forall>j \<in> set ins. request True a j)
        \<and> length ins = 1 + cmd_width c div spi_width c + addr_width c div spi_width c
        \<and> length ds \<le> wbone_width c div (2 * spi_width c)
      \<longrightarrow> dq_trace c (run c s ins) ds =
          map (\<lambda>k. (bit_slice (dat_w (last ins)) (28 - 8 * k) (32 - 8 * k),
                     bit_slice (dat_w (last ins)) (24 - 8 * k) (28 - 8 * k))) [0..<length ds])"
proof -
  note c = construct_Inr [OF assms]
  have widths: "cmd_width c div spi_width c = 8" "addr_width c div spi_width c = 6"
    "wbone_width c div (2 * spi_width c) = 4"
    by (simp_all add: c)
  have A: "sr_width c = 32 \<and> spi_width c = 4"
    by (simp add: c sr_width_def)
  have B: "dq1_o c s = bit_slice (sr s) (sr_width c - spi_width c) (sr_width c)"
    by (simp add: dq1_o_def)
  have C: "dq2_o c s i =
        (if gang_outputs (fsm_act c s i) then dq1_o c s
         else bit_slice (sr s) (sr_width c - 2 * spi_width c) (sr_width c - spi_width c))"
    by (simp add: dq1_o_def dq2_o_def mult.commute)
  have D: "state s = IDLE \<and> (\<forall>j \<in> set ins. request True a j)
        \<and> length ins = 1 + cmd_width c div spi_width c + addr_width c div spi_width c
        \<and> length ds \<le> wbone_width c div (2 * spi_width c)
      \<longrightarrow> dq_trace c (run c s ins) ds =
          map (\<lambda>k. (bit_slice (dat_w (last ins)) (28 - 8 * k) (32 - 8 * k),
                     bit_slice (dat_w (last ins)) (24 - 8 * k) (28 - 8 * k))) [0..<length ds]"
    unfolding widths using cold_write_data [OF assms, of s ins a ds] by blast
  show ?thesis
    by (rule conjI [OF signals_by_state(1) conjI [OF signals_by_state(2)
          conjI [OF A [THEN conjunct1] conjI [OF A [THEN conjunct2] conjI [OF B conjI [OF C D]]]]]])
qed

theorem lane_outputs_witness:
  "construct 4 4 5 32 = Inr example_config
   \<and> state (reset_regs 0) = IDLE
   \<and> request True 7 (write_request 7 0x12345678)
   \<and> dq_trace example_config
       (run example_config (reset_regs 0) (replicate 15 (write_request 7 0x12345678)))
       (replicate 4 (write_request 7 0x12345678)) = [(1, 2), (3, 4), (5, 6), (7, 8)]"
  using lane_outputs [OF construct_example, where s = "reset_regs 0"
      and ins = "replicate 15 (write_request 7 0x12345678)" and a = 7
      and ds = "replicate 4 (write_request 7 0x12345678)"]
  by (simp add: construct_cases example_config_def reset_regs_def write_request_def
      request_def bit_slice_def upt_rec)

text \<open>
  Claim C9. A write that continues a burst enters SEND_DATA with the shift register as it
  was in WAIT_SEND_MORE: \<open>bus.dat_w\<close> is not loaded, and what is shifted out in the data
  phase are the bits the register held before. A write that goes through the address
  phase has \<open>bus.dat_w\<close> loaded into the register in the last cycle of SEND_ADDR, and that
  word is shifted out. On the 32-bit bus the register is empty after any write, so that a
  continued write drives zeros.
\<close>

theorem continued_write_keeps_register:
  assumes "construct l1 l2 d 32 = Inr c"
  shows "(state s = WAIT_SEND_MORE \<and> request True (unat (next_addr s)) i
      \<longrightarrow> state (step c s i) = SEND_DATA \<and> sr (step c s i) = sr s)
    \<and> (reachable c s \<and> state s = WAIT_SEND_MORE \<and> request True (unat (next_addr s)) i
        \<and> length ds \<le> wbone_width c div (2 * spi_width c)
      \<longrightarrow> dq_trace c (step c s i) ds =
          map (\<lambda>k. (bit_slice (sr s) (28 - 8 * k) (32 - 8 * k),
                     bit_slice (sr s) (24 - 8 * k) (28 - 8 * k))) [0..<length ds])
    \<and> (state s = SEND_ADDR \<and> is_write s
        \<and> int (unat (cycle_counter s)) = int (addr_width c div spi_width c) - 1
      \<longrightarrow> state (step c s i) = SEND_DATA \<and> sr (step c s i) = dat_w i mod 2 ^ 32)
    \<and> (state s = IDLE \<and> (\<forall>j \<in> set ins. request True a j)
        \<and> length ins = 1 + cmd_width c div spi_width c + addr_width c div spi_width c
        \<and> length ds \<le> wbone_width c div (2 * spi_width c)
      \<longrightarrow> dq_trace c (run c s ins) ds =
          map (\<lambda>k. (bit_slice (dat_w (last ins)) (28 - 8 * k) (32 - 8 * k),
                     bit_slice (dat_w (last ins)) (24 - 8 * k) (28 - 8 * k))) [0..<length ds])
    \<and> (reachable c s \<and> state s = WAIT_SEND_MORE \<longrightarrow> sr s = 0)"
proof -
  note c = construct_Inr [OF assms]
  have cw: "spi_width c = 4" "cmd_width c = 32" "addr_width c = 24" "wbone_width c = 32"
    by (simp_all add: c)
  have widths: "cmd_width c div spi_width c = 8" "addr_width c div spi_width c = 6"
    "wbone_width c div (2 * spi_width c) = 4"
    by (simp_all add: c)
  have A: "state s = WAIT_SEND_MORE \<and> request True (unat (next_addr s)) i
      \<longrightarrow> state (step c s i) = SEND_DATA \<and> sr (step c s i) = sr s"
    using step_WAIT_SEND_MORE [of s c i] by (auto simp: request_def)
  have B: "reachable c s \<and> state s = WAIT_SEND_MORE \<and> request True (unat (next_addr s)) i
        \<and> length ds \<le> wbone_width c div (2 * spi_width c)
      \<longrightarrow> dq_trace c (step c s i) ds =
          map (\<lambda>k. (bit_slice (sr s) (28 - 8 * k) (32 - 8 * k),
                     bit_slice (sr s) (24 - 8 * k) (28 - 8 * k))) [0..<length ds]"
  proof (intro impI, elim conjE)
    assume r: "reachable c s" and w: "state s = WAIT_SEND_MORE"
      and q: "request True (unat (next_addr s)) i"
      and "length ds \<le> wbone_width c div (2 * spi_width c)"
    then have len: "length ds \<le> 4" by (simp add: widths)
    from reachable_WAIT_counter [OF r] w have "cycle_counter s = 0" by simp
    with step_WAIT_SEND_MORE [OF w, of c i] q
    have st: "state (step c s i) = SEND_DATA" "cycle_counter (step c s i) = 0"
      "sr (step c s i) = sr s"
      by (simp_all add: request_def)
    then have "unat (cycle_counter (step c s i)) + length ds \<le> 4"
      using len by simp
    from dq_trace_SEND_DATA [OF cw st(1) this] st(3)
    show "dq_trace c (step c s i) ds =
          map (\<lambda>k. (bit_slice (sr s) (28 - 8 * k) (32 - 8 * k),
                     bit_slice (sr s) (24 - 8 * k) (28 - 8 * k))) [0..<length ds]"
      by simp
  qed
  have C: "state s = SEND_ADDR \<and> is_write s
        \<and> int (unat (cycle_counter s)) = int (addr_width c div spi_width c) - 1
      \<longrightarrow> state (step c s i) = SEND_DATA \<and> sr (step c s i) = dat_w i mod 2 ^ 32"
    using exit_SEND_ADDR [of s c i] by (auto simp: cw sr_width_def simp del: of_nat_unat)
  have D: "state s = IDLE \<and> (\<forall>j \<in> set ins. request True a j)
        \<and> length ins = 1 + cmd_width c div spi_width c + addr_width c div spi_width c
        \<and> length ds \<le> wbone_width c div (2 * spi_width c)
      \<longrightarrow> dq_trace c (run c s ins) ds =
          map (\<lambda>k. (bit_slice (dat_w (last ins)) (28 - 8 * k) (32 - 8 * k),
                     bit_slice (dat_w (last ins)) (24 - 8 * k) (28 - 8 * k))) [0..<length ds]"
    unfolding widths using cold_write_data [OF assms, of s ins a ds] by blast
  have E: "reachable c s \<and> state s = WAIT_SEND_MORE \<longrightarrow> sr s = 0"
    using reachable_write_residue [OF assms, of s] by blast
  show ?thesis
    by (rule conjI [OF A conjI [OF B conjI [OF C conjI [OF D E]]]])
qed

theorem continued_write_keeps_register_witness:
  "construct 4 4 5 32 = Inr example_config
   \<and> reachable example_config
       (run example_config (reset_regs 0) (replicate 19 (write_request 7 0x12345678)))
   \<and> state (run example_config (reset_regs 0) (replicate 19 (write_request 7 0x12345678)))
       = WAIT_SEND_MORE
   \<and> request True 8 (write_request 8 0xFFFFFFFF)
   \<and> sr (step example_config
       (run example_config (reset_regs 0) (replicate 19 (write_request 7 0x12345678)))
       (write_request 8 0xFFFFFFFF))
     = sr (run example_config (reset_regs 0) (replicate 19 (write_request 7 0x12345678)))
   \<and> dq_trace example_config
       (run example_config (reset_regs 0) (replicate 15 (write_request 7 0x12345678)))
       (replicate 4 (write_request 7 0x12345678)) = [(1, 2), (3, 4), (5, 6), (7, 8)]
   \<and> dq_trace example_config
       (step example_config
         (run example_config (reset_regs 0) (replicate 19 (write_request 7 0x12345678)))
         (write_request 8 0xFFFFFFFF))
       (replicate 4 (write_request 8 0xFFFFFFFF)) = [(0, 0), (0, 0), (0, 0), (0, 0)]"
proof -
  let ?s = "run example_config (reset_regs 0) (replicate 19 (write_request 7 0x12345678))"
  note ex = example_after_write [of "0x12345678"]
  have "sr (step example_config ?s (write_request 8 0xFFFFFFFF)) = sr ?s"
    using continued_write_keeps_register [OF construct_example, of ?s
        "write_request 8 0xFFFFFFFF"] ex
    by simp
  moreover have "dq_trace example_config
       (run example_config (reset_regs 0) (replicate 15 (write_request 7 0x12345678)))
       (replicate 4 (write_request 7 0x12345678)) = [(1, 2), (3, 4), (5, 6), (7, 8)]"
    using continued_write_keeps_register [OF construct_example, where s = "reset_regs 0"
      and ins = "replicate 15 (write_request 7 0x12345678)" and a = 7
      and ds = "replicate 4 (write_request 7 0x12345678)"]
    by (simp add: example_config_def reset_regs_def write_request_def
      request_def bit_slice_def upt_rec)
  moreover have "dq_trace example_config (step example_config ?s (write_request 8 0xFFFFFFFF))
       (replicate 4 (write_request 8 0xFFFFFFFF)) = [(0, 0), (0, 0), (0, 0), (0, 0)]"
    using continued_write_keeps_register [OF construct_example, of ?s
        "write_request 8 0xFFFFFFFF" "replicate 4 (write_request 8 0xFFFFFFFF)"] ex
    by (simp add: example_config_def bit_slice_def upt_rec)
  ultimately show ?thesis
    using ex construct_example by simp
qed

end
